theory Spec2Isabelle
  imports Main "HOL-Library.Sublist" "HOL-Library.Word"
begin

section \<open>Go strings\<close>

text \<open>
  A Go \<open>string\<close> is a sequence of bytes; it is modelled as \<open>string\<close> (a list of
  8-bit characters). The functions of package \<open>strings\<close> that the repository calls are
  stated on lists: \<open>HasPrefix\<close>, \<open>HasSuffix\<close> and \<open>Contains\<close> are the prefix, suffix
  and contiguous-sublist tests.
\<close>

definition HasPrefix :: "string \<Rightarrow> string \<Rightarrow> bool" where
  "HasPrefix s pre = prefix pre s"

definition HasSuffix :: "string \<Rightarrow> string \<Rightarrow> bool" where
  "HasSuffix s suf = suffix suf s"

definition Contains :: "string \<Rightarrow> string \<Rightarrow> bool" where
  "Contains s sub = sublist sub s"

definition TrimPrefix :: "string \<Rightarrow> string \<Rightarrow> string" where
  "TrimPrefix s pre = (if HasPrefix s pre then drop (length pre) s else s)"

definition TrimSuffix :: "string \<Rightarrow> string \<Rightarrow> string" where
  "TrimSuffix s suf = (if HasSuffix s suf then take (length s - length suf) s else s)"

text \<open>\<open>strings.Split(s, "/")\<close>: the segments of a path, empty ones included.\<close>

fun Split_slash :: "string \<Rightarrow> string list" where
  "Split_slash [] = [[]]"
| "Split_slash (c # cs) =
     (if c = CHR ''/'' then [] # Split_slash cs
      else (case Split_slash cs of
              [] \<Rightarrow> [[c]]
            | s # ss \<Rightarrow> (c # s) # ss))"

section \<open>path.Clean\<close>

text \<open>
  \<open>NormalizePath\<close> calls \<open>path.Clean\<close> of the Go standard library. The model follows
  the library's loop: \<open>out\<close> is the output buffer (\<open>out.w\<close> is its length), the read
  index \<open>r\<close> is represented by the unread rest of the path, \<open>dotdot\<close> is the index in
  the buffer where backtracking must stop.

  \<^verbatim>\<open>
  case out.w > dotdot:
      out.w--
      for out.w > dotdot && out.index(out.w) != '/' { out.w-- }
  \<close>
  \<open>out.index(out.w)\<close> is the byte that the last decrement removed.
\<close>

function backtrack_loop :: "string \<Rightarrow> nat \<Rightarrow> char \<Rightarrow> string" where
  "backtrack_loop out dotdot removed =
     (if length out > dotdot \<and> removed \<noteq> CHR ''/''
      then backtrack_loop (butlast out) dotdot (last out)
      else out)"
  by pat_completeness auto
termination
  by (relation "measure (\<lambda>(out, dotdot, removed). length out)") auto

definition backtrack :: "string \<Rightarrow> nat \<Rightarrow> string" where
  "backtrack out dotdot = backtrack_loop (butlast out) dotdot (last out)"

function clean_loop :: "bool \<Rightarrow> string \<Rightarrow> string \<Rightarrow> nat \<Rightarrow> string" where
  "clean_loop rooted [] out dotdot = out"
| "clean_loop rooted (c # rest) out dotdot =
     (if c = CHR ''/'' then
        \<comment> \<open>empty path element\<close>
        clean_loop rooted rest out dotdot
      else if c = CHR ''.'' \<and> (rest = [] \<or> hd rest = CHR ''/'') then
        \<comment> \<open>. element\<close>
        clean_loop rooted rest out dotdot
      else if c = CHR ''.'' \<and> hd rest = CHR ''.''
              \<and> (tl rest = [] \<or> hd (tl rest) = CHR ''/'') then
        \<comment> \<open>.. element: remove to last /\<close>
        (if length out > dotdot then
           clean_loop rooted (tl rest) (backtrack out dotdot) dotdot
         else if \<not> rooted then
           (let out1 = (if length out > 0 then out @ ''/'' else out);
                out2 = out1 @ ''..''
            in clean_loop rooted (tl rest) out2 (length out2))
         else clean_loop rooted (tl rest) out dotdot)
      else
        \<comment> \<open>real path element: add slash if needed, copy element\<close>
        (let out1 = (if (rooted \<and> length out \<noteq> 1) \<or> (\<not> rooted \<and> length out \<noteq> 0)
                     then out @ ''/'' else out)
         in clean_loop rooted (dropWhile (\<lambda>x. x \<noteq> CHR ''/'') rest)
              (out1 @ c # takeWhile (\<lambda>x. x \<noteq> CHR ''/'') rest) dotdot))"
  by pat_completeness auto
termination
  by (relation "measure (\<lambda>(rooted, path, out, dotdot). length path)")
     (auto simp: less_Suc_eq_le length_dropWhile_le)

definition Clean :: "string \<Rightarrow> string" where
  "Clean path =
     (if path = [] then ''.''
      else
        (let rooted = (hd path = CHR ''/'');
             out = (if rooted
                    then clean_loop rooted (tl path) ''/'' 1
                    else clean_loop rooted path [] 0)
         in if length out = 0 then ''.'' else out))"

section \<open>utils: path helpers\<close>

definition NormalizePath :: "string \<Rightarrow> string" where
  "NormalizePath p = TrimPrefix (Clean (TrimPrefix p ''/'')) ''/''"

definition IsValidPath :: "string \<Rightarrow> bool" where
  "IsValidPath p =
     (if Contains p ''..'' then False
      else if Contains (NormalizePath p) ''..'' then False
      else True)"

section \<open>Errors\<close>

text \<open>
  A Go \<open>error\<close> value. \<open>io.EOF\<close> and \<open>utils.ErrPathTraversal\<close> are sentinels compared
  by identity and get constructors of their own; \<open>FormatError m\<close> is
  \<open>&FormatError{Message: m}\<close>; \<open>ExtError t\<close> is an error of a decoding library or of
  the HTTP client, known by its text \<open>t\<close>; \<open>NewError t\<close> is \<open>errors.New(t)\<close> or a
  \<open>fmt.Errorf\<close> without cause made by the repository; \<open>WrapError e m\<close> is
  \<open>utils.WrapError(e, m)\<close>.
\<close>

datatype error =
    EOF
  | ErrPathTraversal
  | FormatError string
  | ExtError string
  | NewError string
  | WrapError error string

fun Error :: "error \<Rightarrow> string" where
  "Error EOF = ''EOF''"
| "Error ErrPathTraversal = ''path traversal detected''"
| "Error (FormatError m) = m"
| "Error (ExtError t) = t"
| "Error (NewError t) = t"
| "Error (WrapError e m) = m @ '': '' @ Error e"

definition ErrPasswordIncorrect :: error where
  "ErrPasswordIncorrect = FormatError ''incorrect password''"

definition ErrPasswordRequired :: error where
  "ErrPasswordRequired = FormatError ''password required''"

definition ErrFileNotFound :: error where
  "ErrFileNotFound = FormatError ''file not found in archive''"

section \<open>formats: the data model\<close>

type_synonym byte = "8 word"

text \<open>
  \<open>int64\<close> values are integers; where the source adds two of them or converts a
  \<open>uint64\<close>, the two's-complement wrap-around is written out with \<open>wrap64\<close>.
  A \<open>time.Time\<close> is represented by an integer time stamp.
\<close>

definition wrap64 :: "int \<Rightarrow> int" where
  "wrap64 x = (x + 2 ^ 63) mod 2 ^ 64 - 2 ^ 63"

record FileEntry =
  Path :: string
  Size :: int
  CompressedSize :: int
  ModTime :: int
  IsDir :: bool

record ArchiveInfo =
  IsEncrypted :: bool
  RequiresPassword :: bool
  TotalFiles :: int
  TotalSize :: int
  Files :: "FileEntry list"
  Comment :: string

text \<open>The \<open>ArchiveInfo\<close> literal with which every \<open>GetInfo\<close> starts.\<close>

definition new_info :: "string \<Rightarrow> ArchiveInfo" where
  "new_info c = \<lparr>IsEncrypted = False, RequiresPassword = False, TotalFiles = 0,
                  TotalSize = 0, Files = [], Comment = c\<rparr>"

text \<open>
  \<^verbatim>\<open>
  info.Files = append(info.Files, entry)
  if !entry.IsDir { info.TotalFiles++; info.TotalSize += entry.Size }
  \<close>
\<close>

definition add_entry :: "ArchiveInfo \<Rightarrow> FileEntry \<Rightarrow> ArchiveInfo" where
  "add_entry info entry =
     (let info1 = info\<lparr>Files := Files info @ [entry]\<rparr>
      in if \<not> IsDir entry
         then info1\<lparr>TotalFiles := wrap64 (TotalFiles info1 + 1),
                    TotalSize := wrap64 (TotalSize info1 + Size entry)\<rparr>
         else info1)"

text \<open>
  The result of \<open>GetInfo\<close> is the Go pair \<open>(*ArchiveInfo, error)\<close>: each component may
  be nil (\<open>None\<close>) on its own.
\<close>

type_synonym info_result = "ArchiveInfo option \<times> error option"

text \<open>The test that the handlers apply to a library error to recognise encryption.\<close>

definition is_password_text :: "error \<Rightarrow> bool" where
  "is_password_text err = (Contains (Error err) ''password'' \<or> Contains (Error err) ''encrypted'')"

text \<open>
  The filter on \<open>innerPath\<close> that the 7z, RAR and TAR handlers share, line for line;
  \<open>True\<close> means that the loop reaches its \<open>append\<close>, \<open>False\<close> that it runs \<open>continue\<close>.
  \<^verbatim>\<open>
  if innerPath != "" {
      if innerPath == "/" {
          if strings.Contains(strings.TrimSuffix(normalizedName, "/"), "/") { continue }
      } else {
          if !strings.HasPrefix(normalizedName, innerPath) { continue }
          relativePath := strings.TrimPrefix(normalizedName, innerPath)
          if strings.Contains(strings.TrimSuffix(relativePath, "/"), "/") { continue }
      }
  }
  \<close>
\<close>

definition filter_by_inner_path :: "string \<Rightarrow> string \<Rightarrow> bool" where
  "filter_by_inner_path innerPath normalizedName =
     (if innerPath \<noteq> [] then
        (if innerPath = ''/'' then
           \<not> Contains (TrimSuffix normalizedName ''/'') ''/''
         else if \<not> HasPrefix normalizedName innerPath then False
         else \<not> Contains (TrimSuffix (TrimPrefix normalizedName innerPath) ''/'') ''/'')
      else True)"

text \<open>
  \<^verbatim>\<open>
  innerPath = utils.NormalizePath(innerPath)
  if innerPath != "" { innerPath = innerPath + "/" }
  \<close>
\<close>

definition inner_path_prefix :: "string \<Rightarrow> string" where
  "inner_path_prefix innerPath =
     (let p = NormalizePath innerPath in if p \<noteq> [] then p @ ''/'' else p)"

section \<open>formats: TAR\<close>

text \<open>
  The handlers parse the archive through decoding libraries. An archive is modelled by
  what its library reports over the random-access reader: the result of opening it, the
  headers in container order, and the error that ends the enumeration (\<open>io.EOF\<close> at a
  regular end).

  For TAR: \<open>ta_ReadAt0\<close> is the result of \<open>reader.ReadAt(magic, 0)\<close> (the bytes read,
  or the error), \<open>ta_gzip_NewReader\<close> and \<open>ta_xz_NewReader\<close> the error, if any, of
  building that decompressor, \<open>ta_headers\<close> the headers that \<open>tarReader.Next()\<close> yields
  and \<open>ta_err\<close> the error it returns after them.
\<close>

record tar_Header =
  th_Name :: string
  th_Size :: int
  th_ModTime :: int
  th_Typeflag :: byte
  th_Data :: "byte list"

record tar_archive =
  ta_ReadAt0 :: "error + byte list"
  ta_gzip_NewReader :: "error option"
  ta_xz_NewReader :: "error option"
  ta_headers :: "tar_Header list"
  ta_err :: error

definition TypeDir :: byte where
  "TypeDir = 0x35"

text \<open>\<open>magic := make([]byte, 10)\<close>, its first bytes overwritten by what was read.\<close>

definition magic_buffer :: "byte list \<Rightarrow> byte list" where
  "magic_buffer bs = take 10 (bs @ replicate 10 0)"

definition detectCompression :: "tar_archive \<Rightarrow> error + string" where
  "detectCompression a =
     (case ta_ReadAt0 a of
        Inl err \<Rightarrow> Inl err
      | Inr bs \<Rightarrow>
          (let magic = magic_buffer bs in
           if magic ! 0 = 0x1f \<and> magic ! 1 = 0x8b then Inr ''gzip''
           else if magic ! 0 = 0x42 \<and> magic ! 1 = 0x5A then Inr ''bzip2''
           else if magic ! 0 = 0xFD \<and> magic ! 1 = 0x37 \<and> magic ! 2 = 0x7A \<and>
                   magic ! 3 = 0x58 \<and> magic ! 4 = 0x5A \<and> magic ! 5 = 0x00 then Inr ''xz''
           else Inr ''none''))"

definition wrapReader :: "tar_archive \<Rightarrow> string \<Rightarrow> error option" where
  "wrapReader a compression =
     (if compression = ''gzip'' then ta_gzip_NewReader a
      else if compression = ''bzip2'' then None
      else if compression = ''xz'' then ta_xz_NewReader a
      else None)"

definition tar_entry :: "tar_Header \<Rightarrow> FileEntry" where
  "tar_entry header = \<lparr>Path = th_Name header, Size = th_Size header, CompressedSize = 0,
                        ModTime = th_ModTime header, IsDir = (th_Typeflag header = TypeDir)\<rparr>"

fun tar_info_loop :: "tar_Header list \<Rightarrow> error \<Rightarrow> ArchiveInfo \<Rightarrow> info_result" where
  "tar_info_loop [] err info =
     (if err = EOF then (Some info, None)
      else (None, Some (WrapError err ''failed to read TAR header'')))"
| "tar_info_loop (header # hs) err info =
     tar_info_loop hs err (add_entry info (tar_entry header))"

definition Tar_GetInfo :: "tar_archive \<Rightarrow> string \<Rightarrow> info_result" where
  "Tar_GetInfo a password =
     (if password \<noteq> [] then
        (None, Some (FormatError ''TAR format does not support encryption''))
      else case detectCompression a of
        Inl err \<Rightarrow> (None, Some err)
      | Inr compression \<Rightarrow>
          (case wrapReader a compression of
             Some err \<Rightarrow> (None, Some (WrapError err ''failed to create decompressor''))
           | None \<Rightarrow> tar_info_loop (ta_headers a) (ta_err a) (new_info [])))"

fun tar_list_loop :: "string \<Rightarrow> tar_Header list \<Rightarrow> error \<Rightarrow> FileEntry list
                      \<Rightarrow> error + FileEntry list" where
  "tar_list_loop innerPath [] err files =
     (if err = EOF then Inr files
      else Inl (WrapError err ''failed to read TAR header''))"
| "tar_list_loop innerPath (header # hs) err files =
     (let normalizedName = NormalizePath (th_Name header) in
      if \<not> filter_by_inner_path innerPath normalizedName
      then tar_list_loop innerPath hs err files
      else tar_list_loop innerPath hs err (files @ [tar_entry header]))"

definition Tar_ListFiles :: "tar_archive \<Rightarrow> string \<Rightarrow> string \<Rightarrow> error + FileEntry list" where
  "Tar_ListFiles a innerPath password =
     (if password \<noteq> [] then
        Inl (FormatError ''TAR format does not support encryption'')
      else case detectCompression a of
        Inl err \<Rightarrow> Inl err
      | Inr compression \<Rightarrow>
          (case wrapReader a compression of
             Some err \<Rightarrow> Inl (WrapError err ''failed to create decompressor'')
           | None \<Rightarrow>
               tar_list_loop (inner_path_prefix innerPath) (ta_headers a) (ta_err a) []))"

text \<open>
  \<open>ExtractFile\<close> returns the stream of the entry and its size; the stream is
  represented by the bytes it yields.
\<close>

type_synonym extract_result = "error + (byte list \<times> int)"

fun tar_extract_loop :: "string \<Rightarrow> tar_Header list \<Rightarrow> error \<Rightarrow> extract_result" where
  "tar_extract_loop filePath [] err =
     (if err = EOF then Inl ErrFileNotFound
      else Inl (WrapError err ''failed to read TAR header''))"
| "tar_extract_loop filePath (header # hs) err =
     (if NormalizePath (th_Name header) = filePath
      then Inr (th_Data header, th_Size header)
      else tar_extract_loop filePath hs err)"

definition Tar_ExtractFile :: "tar_archive \<Rightarrow> string \<Rightarrow> string \<Rightarrow> extract_result" where
  "Tar_ExtractFile a filePath password =
     (if password \<noteq> [] then
        Inl (FormatError ''TAR format does not support encryption'')
      else case detectCompression a of
        Inl err \<Rightarrow> Inl err
      | Inr compression \<Rightarrow>
          (case wrapReader a compression of
             Some err \<Rightarrow> Inl (WrapError err ''failed to create decompressor'')
           | None \<Rightarrow>
               tar_extract_loop (NormalizePath filePath) (ta_headers a) (ta_err a)))"

section \<open>formats: 7z\<close>

text \<open>
  \<open>sa_NewReader password\<close> is the result of \<open>sevenzip.NewReaderWithPassword\<close>, or of
  \<open>sevenzip.NewReader\<close> when the password is empty: an error or the files of the
  archive. \<open>sf_Open\<close> is the error, if any, of \<open>file.Open()\<close> on that reader.
\<close>

record sz_File =
  sf_Name :: string
  sf_UncompressedSize :: nat
  sf_Modified :: int
  sf_IsDir :: bool
  sf_Open :: "error option"
  sf_Data :: "byte list"

record sz_archive =
  sa_NewReader :: "string \<Rightarrow> error + sz_File list"

definition sz_entry :: "sz_File \<Rightarrow> FileEntry" where
  "sz_entry file = \<lparr>Path = sf_Name file, Size = wrap64 (int (sf_UncompressedSize file)),
                     CompressedSize = 0, ModTime = sf_Modified file, IsDir = sf_IsDir file\<rparr>"

text \<open>
  \<^verbatim>\<open>
  rc, err := file.Open()
  if err != nil && (strings.Contains(err.Error(), "password") ||
                    strings.Contains(err.Error(), "encrypted")) { ... }
  \<close>
\<close>

definition open_encrypted :: "sz_File \<Rightarrow> bool" where
  "open_encrypted file =
     (case sf_Open file of None \<Rightarrow> False | Some err \<Rightarrow> is_password_text err)"

fun sz_info_loop :: "string \<Rightarrow> sz_File list \<Rightarrow> ArchiveInfo \<Rightarrow> ArchiveInfo" where
  "sz_info_loop password [] info = info"
| "sz_info_loop password (file # fs) info =
     (let isEncrypted = (password = [] \<and> open_encrypted file);
          info1 = (if isEncrypted
                   then info\<lparr>IsEncrypted := True, RequiresPassword := True\<rparr>
                   else info);
          info2 = add_entry info1 (sz_entry file)
      in if isEncrypted then info2 else sz_info_loop password fs info2)"

definition SevenZip_GetInfo :: "sz_archive \<Rightarrow> string \<Rightarrow> info_result" where
  "SevenZip_GetInfo a password =
     (case sa_NewReader a password of
        Inl err \<Rightarrow>
          (if is_password_text err then
             (let info = \<lparr>IsEncrypted = True, RequiresPassword = True, TotalFiles = 0,
                          TotalSize = 0, Files = [], Comment = []\<rparr>
              in if password \<noteq> [] then (Some info, Some ErrPasswordIncorrect)
                 else (Some info, Some ErrPasswordRequired))
           else (None, Some (WrapError err ''failed to open 7z archive'')))
      | Inr files \<Rightarrow>
          (let info = sz_info_loop password files (new_info [])
           in if IsEncrypted info \<and> password = []
              then (Some info, Some ErrPasswordRequired)
              else (Some info, None)))"

fun sz_list_loop :: "string \<Rightarrow> sz_File list \<Rightarrow> FileEntry list \<Rightarrow> FileEntry list" where
  "sz_list_loop innerPath [] files = files"
| "sz_list_loop innerPath (file # fs) files =
     (let normalizedName = NormalizePath (sf_Name file) in
      if \<not> filter_by_inner_path innerPath normalizedName
      then sz_list_loop innerPath fs files
      else sz_list_loop innerPath fs (files @ [sz_entry file]))"

definition SevenZip_ListFiles :: "sz_archive \<Rightarrow> string \<Rightarrow> string \<Rightarrow> error + FileEntry list" where
  "SevenZip_ListFiles a innerPath password =
     (case sa_NewReader a password of
        Inl err \<Rightarrow>
          (if is_password_text err then
             (if password \<noteq> [] then Inl ErrPasswordIncorrect else Inl ErrPasswordRequired)
           else Inl (WrapError err ''failed to open 7z archive''))
      | Inr files \<Rightarrow> Inr (sz_list_loop (inner_path_prefix innerPath) files []))"

section \<open>formats: RAR\<close>

text \<open>
  \<open>ra_NewReader password\<close> is the result of \<open>rardecode.NewReader\<close> (with the password
  option when the password is not empty): an error, or the headers that \<open>Next()\<close>
  yields together with the error it returns after them.
\<close>

record rar_FileHeader =
  rh_Name :: string
  rh_UnPackedSize :: int
  rh_PackedSize :: int
  rh_ModificationTime :: int
  rh_IsDir :: bool
  rh_Data :: "byte list"

record rar_archive =
  ra_NewReader :: "string \<Rightarrow> error + (rar_FileHeader list \<times> error)"

definition rar_entry :: "rar_FileHeader \<Rightarrow> FileEntry" where
  "rar_entry header = \<lparr>Path = rh_Name header, Size = rh_UnPackedSize header,
                        CompressedSize = rh_PackedSize header,
                        ModTime = rh_ModificationTime header, IsDir = rh_IsDir header\<rparr>"

fun rar_info_loop :: "string \<Rightarrow> rar_FileHeader list \<Rightarrow> error \<Rightarrow> ArchiveInfo \<Rightarrow> info_result" where
  "rar_info_loop password [] err info =
     (if err = EOF then
        (if IsEncrypted info \<and> password = []
         then (Some (info\<lparr>RequiresPassword := True\<rparr>), Some ErrPasswordRequired)
         else (Some info, None))
      else if is_password_text err then
        (let info1 = info\<lparr>IsEncrypted := True, RequiresPassword := True\<rparr>
         in if password \<noteq> [] then (Some info1, Some ErrPasswordIncorrect)
            else (Some info1, Some ErrPasswordRequired))
      else (None, Some (WrapError err ''failed to read RAR header'')))"
| "rar_info_loop password (header # hs) err info =
     rar_info_loop password hs err (add_entry info (rar_entry header))"

definition Rar_GetInfo :: "rar_archive \<Rightarrow> string \<Rightarrow> info_result" where
  "Rar_GetInfo a password =
     (case ra_NewReader a password of
        Inl err \<Rightarrow> (None, Some (WrapError err ''failed to open RAR archive''))
      | Inr (headers, err) \<Rightarrow> rar_info_loop password headers err (new_info []))"

fun rar_list_loop :: "string \<Rightarrow> string \<Rightarrow> rar_FileHeader list \<Rightarrow> error \<Rightarrow> FileEntry list
                      \<Rightarrow> error + FileEntry list" where
  "rar_list_loop password innerPath [] err files =
     (if err = EOF then Inr files
      else if is_password_text err then
        (if password \<noteq> [] then Inl ErrPasswordIncorrect else Inl ErrPasswordRequired)
      else Inl (WrapError err ''failed to read RAR header''))"
| "rar_list_loop password innerPath (header # hs) err files =
     (let normalizedName = NormalizePath (rh_Name header) in
      if \<not> filter_by_inner_path innerPath normalizedName
      then rar_list_loop password innerPath hs err files
      else rar_list_loop password innerPath hs err (files @ [rar_entry header]))"

definition Rar_ListFiles :: "rar_archive \<Rightarrow> string \<Rightarrow> string \<Rightarrow> error + FileEntry list" where
  "Rar_ListFiles a innerPath password =
     (case ra_NewReader a password of
        Inl err \<Rightarrow> Inl (WrapError err ''failed to open RAR archive'')
      | Inr (headers, err) \<Rightarrow>
          rar_list_loop password (inner_path_prefix innerPath) headers err [])"

section \<open>formats: ZIP\<close>

text \<open>
  \<open>decodeName\<close> runs a charset detector and a decoder of external libraries; both are
  parameters. \<open>DetectAll b\<close> is the detector's result, a list of (charset, confidence)
  pairs or an error; \<open>Decode enc b\<close> is the result of reading \<open>b\<close> through the decoder
  of the encoding \<open>enc\<close>.
\<close>

record charset_env =
  DetectAll :: "string \<Rightarrow> error + (string \<times> int) list"
  Decode :: "string \<Rightarrow> string \<Rightarrow> error + string"

text \<open>\<open>getEncoding\<close>: the closed set of encodings, each named here by its Go value.\<close>

definition getEncoding :: "string \<Rightarrow> string option" where
  "getEncoding charset =
     (if charset = ''UTF-8'' then Some ''unicode.UTF8''
      else if charset = ''UTF-16BE'' then Some ''unicode.UTF16(BigEndian)''
      else if charset = ''UTF-16LE'' then Some ''unicode.UTF16(LittleEndian)''
      else if charset = ''ISO-8859-1'' then Some ''charmap.ISO8859_1''
      else if charset = ''ISO-8859-2'' then Some ''charmap.ISO8859_2''
      else if charset = ''windows-1251'' then Some ''charmap.Windows1251''
      else if charset = ''Shift_JIS'' then Some ''japanese.ShiftJIS''
      else if charset = ''GB-18030'' \<or> charset = ''GB18030'' then Some ''simplifiedchinese.GB18030''
      else if charset = ''GBK'' then Some ''simplifiedchinese.GBK''
      else if charset = ''EUC-KR'' then Some ''korean.EUCKR''
      else if charset = ''Big5'' then Some ''traditionalchinese.Big5''
      else None)"

text \<open>
  \<^verbatim>\<open>
  for _, r := range results {
      if r.Confidence > 30 { enc = getEncoding(r.Charset); if enc != nil { break } }
  }
  \<close>
\<close>

fun first_encoding :: "(string \<times> int) list \<Rightarrow> string option" where
  "first_encoding [] = None"
| "first_encoding ((charset, confidence) # rs) =
     (if confidence > 30 then
        (case getEncoding charset of
           Some enc \<Rightarrow> Some enc
         | None \<Rightarrow> first_encoding rs)
      else first_encoding rs)"

definition decodeName :: "charset_env \<Rightarrow> string \<Rightarrow> string" where
  "decodeName env name =
     (case DetectAll env name of
        Inl err \<Rightarrow> name
      | Inr results \<Rightarrow>
          (case first_encoding results of
             None \<Rightarrow> name
           | Some enc \<Rightarrow>
               (case Decode env enc name of
                  Inl err \<Rightarrow> name
                | Inr content \<Rightarrow> content)))"

text \<open>
  \<open>zf_Open password\<close> is the error, if any, of \<open>file.Open()\<close> after
  \<open>file.SetPassword(password)\<close> (the empty password when none was set). A ZIP archive is
  the result of \<open>zip.NewReader\<close>: an error, or the files and the comment.
\<close>

record zip_File =
  zf_Name :: string
  zf_IsEncrypted :: bool
  zf_Open :: "string \<Rightarrow> error option"
  zf_UncompressedSize64 :: nat
  zf_CompressedSize64 :: nat
  zf_ModTime :: int
  zf_IsDir :: bool
  zf_Data :: "byte list"

record zip_Reader =
  zr_File :: "zip_File list"
  zr_Comment :: string

type_synonym zip_archive = "error + zip_Reader"

definition zip_entry :: "charset_env \<Rightarrow> zip_File \<Rightarrow> FileEntry" where
  "zip_entry env file =
     (let fileName = decodeName env (zf_Name file);
          isDir = (HasSuffix fileName ''/'' \<or> zf_IsDir file)
      in \<lparr>Path = fileName, Size = wrap64 (int (zf_UncompressedSize64 file)),
          CompressedSize = wrap64 (int (zf_CompressedSize64 file)),
          ModTime = zf_ModTime file, IsDir = isDir\<rparr>)"

fun zip_info_loop :: "charset_env \<Rightarrow> string \<Rightarrow> zip_File list \<Rightarrow> ArchiveInfo \<Rightarrow> bool
                      \<Rightarrow> info_result" where
  "zip_info_loop env password [] info passwordVerified =
     (if IsEncrypted info \<and> password = []
      then (Some (info\<lparr>RequiresPassword := True\<rparr>), Some ErrPasswordRequired)
      else (Some info, None))"
| "zip_info_loop env password (file # fs) info passwordVerified =
     (if zf_IsEncrypted file then
        (let info1 = info\<lparr>IsEncrypted := True\<rparr> in
         if \<not> passwordVerified \<and> password \<noteq> [] then
           (case zf_Open file password of
              Some err \<Rightarrow>
                (if Contains (Error err) ''password''
                 then (Some (info1\<lparr>RequiresPassword := True\<rparr>), Some ErrPasswordIncorrect)
                 else (None, Some (WrapError err ''failed to verify password'')))
            | None \<Rightarrow>
                zip_info_loop env password fs (add_entry info1 (zip_entry env file)) True)
         else if password = [] then
           zip_info_loop env password fs
             (add_entry (info1\<lparr>RequiresPassword := True\<rparr>) (zip_entry env file))
             passwordVerified
         else
           zip_info_loop env password fs (add_entry info1 (zip_entry env file))
             passwordVerified)
      else
        zip_info_loop env password fs (add_entry info (zip_entry env file)) passwordVerified)"

definition Zip_GetInfo :: "charset_env \<Rightarrow> zip_archive \<Rightarrow> string \<Rightarrow> info_result" where
  "Zip_GetInfo env a password =
     (case a of
        Inl err \<Rightarrow> (None, Some (WrapError err ''failed to open ZIP archive''))
      | Inr zipReader \<Rightarrow>
          zip_info_loop env password (zr_File zipReader) (new_info (zr_Comment zipReader))
            False)"

text \<open>
  The filter of the ZIP handler, which decides on the original \<open>innerPath\<close>:
  \<open>listAll\<close> for the empty string, \<open>isRoot\<close> for \<open>"/"\<close>.
\<close>

definition zip_filter :: "bool \<Rightarrow> bool \<Rightarrow> string \<Rightarrow> string \<Rightarrow> bool" where
  "zip_filter listAll isRoot innerPath normalizedName =
     (if listAll then True
      else if isRoot then \<not> Contains (TrimSuffix normalizedName ''/'') ''/''
      else if \<not> HasPrefix normalizedName innerPath then False
      else \<not> Contains (TrimSuffix (TrimPrefix normalizedName innerPath) ''/'') ''/'')"

fun zip_list_loop :: "charset_env \<Rightarrow> string \<Rightarrow> bool \<Rightarrow> bool \<Rightarrow> string \<Rightarrow> zip_File list
                      \<Rightarrow> FileEntry list \<Rightarrow> bool \<Rightarrow> error + FileEntry list" where
  "zip_list_loop env password listAll isRoot innerPath [] files passwordVerified = Inr files"
| "zip_list_loop env password listAll isRoot innerPath (file # fs) files passwordVerified =
     (let fileName = decodeName env (zf_Name file);
          normalizedName = NormalizePath fileName
      in if \<not> zip_filter listAll isRoot innerPath normalizedName then
           zip_list_loop env password listAll isRoot innerPath fs files passwordVerified
         else if zf_IsEncrypted file \<and> \<not> passwordVerified then
           (if password = [] then Inl ErrPasswordRequired
            else case zf_Open file password of
              Some err \<Rightarrow>
                (if Contains (Error err) ''password'' then Inl ErrPasswordIncorrect
                 else Inl (WrapError err ''failed to open encrypted file''))
            | None \<Rightarrow>
                zip_list_loop env password listAll isRoot innerPath fs
                  (files @ [zip_entry env file]) True)
         else
           zip_list_loop env password listAll isRoot innerPath fs
             (files @ [zip_entry env file]) passwordVerified)"

definition Zip_ListFiles :: "charset_env \<Rightarrow> zip_archive \<Rightarrow> string \<Rightarrow> string
                             \<Rightarrow> error + FileEntry list" where
  "Zip_ListFiles env a innerPath password =
     (case a of
        Inl err \<Rightarrow> Inl (WrapError err ''failed to open ZIP archive'')
      | Inr zipReader \<Rightarrow>
          (let listAll = (innerPath = []);
               isRoot = (innerPath = ''/'');
               innerPath1 = NormalizePath innerPath;
               innerPath2 = (if innerPath1 = ''.'' then [] else innerPath1);
               innerPath3 = (if innerPath2 \<noteq> [] \<and> \<not> listAll \<and> \<not> isRoot
                             then innerPath2 @ ''/'' else innerPath2)
           in zip_list_loop env password listAll isRoot innerPath3 (zr_File zipReader) []
                False))"

section \<open>formats: the Format interface\<close>

text \<open>
  An archive together with the handler that format detection chose for it; \<open>GetInfo\<close>
  and \<open>ListFiles\<close> are the calls through the \<open>Format\<close> interface.
\<close>

datatype archive =
    ZipArchive zip_archive
  | RarArchive rar_archive
  | SevenZipArchive sz_archive
  | TarArchive tar_archive

fun GetInfo :: "charset_env \<Rightarrow> archive \<Rightarrow> string \<Rightarrow> info_result" where
  "GetInfo env (ZipArchive a) password = Zip_GetInfo env a password"
| "GetInfo env (RarArchive a) password = Rar_GetInfo a password"
| "GetInfo env (SevenZipArchive a) password = SevenZip_GetInfo a password"
| "GetInfo env (TarArchive a) password = Tar_GetInfo a password"

fun ListFiles :: "charset_env \<Rightarrow> archive \<Rightarrow> string \<Rightarrow> string \<Rightarrow> error + FileEntry list" where
  "ListFiles env (ZipArchive a) innerPath password = Zip_ListFiles env a innerPath password"
| "ListFiles env (RarArchive a) innerPath password = Rar_ListFiles a innerPath password"
| "ListFiles env (SevenZipArchive a) innerPath password = SevenZip_ListFiles a innerPath password"
| "ListFiles env (TarArchive a) innerPath password = Tar_ListFiles a innerPath password"

section \<open>rangehttp: the HTTP client\<close>

text \<open>\<open>%d\<close> of \<open>fmt.Sprintf\<close>: the decimal digits of an integer.\<close>

function show_nat :: "nat \<Rightarrow> string" where
  "show_nat n =
     (if n < 10 then [char_of (48 + n)]
      else show_nat (n div 10) @ [char_of (48 + n mod 10)])"
  by pat_completeness auto
termination
  by (relation "measure id") auto

definition show_int :: "int \<Rightarrow> string" where
  "show_int i = (if i < 0 then CHR ''-'' # show_nat (nat (- i)) else show_nat (nat i))"

text \<open>
  A response body is a stream: the chunks in which its bytes arrive, one chunk at most
  per \<open>Read\<close>, and the error that \<open>Read\<close> returns once they are consumed (\<open>io.EOF\<close> at
  a regular end, another error when the connection breaks or the context is cancelled).
\<close>

record stream =
  st_chunks :: "byte list list"
  st_err :: error

text \<open>
  \<open>Read(p)\<close> with \<open>len(p) = n\<close>: the bytes stored in \<open>p\<close>, the error and the stream
  afterwards.
\<close>

definition stream_Read :: "stream \<Rightarrow> nat \<Rightarrow> byte list \<times> error option \<times> stream" where
  "stream_Read s n =
     (case st_chunks s of
        [] \<Rightarrow> ([], Some (st_err s), s)
      | c # cs \<Rightarrow>
          if length c \<le> n then (c, None, s\<lparr>st_chunks := cs\<rparr>)
          else (take n c, None, s\<lparr>st_chunks := drop n c # cs\<rparr>))"

text \<open>
  \<open>io.CopyN(io.Discard, src, n)\<close> reads through a reader limited to \<open>n\<close> bytes until
  \<open>n\<close> bytes are discarded or the source ends. \<open>discard_chunks\<close> gives the number of
  bytes discarded and the chunks left.
\<close>

fun discard_chunks :: "nat \<Rightarrow> byte list list \<Rightarrow> nat \<times> byte list list" where
  "discard_chunks n [] = (0, [])"
| "discard_chunks n (c # cs) =
     (if n = 0 then (0, c # cs)
      else if length c \<le> n then
        (case discard_chunks (n - length c) cs of (w, r) \<Rightarrow> (length c + w, r))
      else (n, drop n c # cs))"

definition CopyN_Discard :: "stream \<Rightarrow> int \<Rightarrow> error option \<times> stream" where
  "CopyN_Discard s n =
     (if n \<le> 0 then (None, s)
      else case discard_chunks (nat n) (st_chunks s) of
        (written, r) \<Rightarrow>
          (if int written = n then None else Some (st_err s), s\<lparr>st_chunks := r\<rparr>))"

record skipReader =
  sr_reader :: stream
  sr_skip :: int
  sr_length :: int
  sr_skipped :: int
  sr_read :: int
  sr_skipOnce :: bool

text \<open>
  \<open>skipReader.Read\<close>. \<open>sr_skipOnce\<close> tells that the \<open>sync.Once\<close> has run. The counters
  are bounded by the length of the body, so their sums do not leave \<open>int64\<close>.
\<close>

definition skipReader_Read :: "skipReader \<Rightarrow> nat \<Rightarrow> byte list \<times> error option \<times> skipReader" where
  "skipReader_Read s n =
     (let (err, s1) =
            (if \<not> sr_skipOnce s then
               (case CopyN_Discard (sr_reader s) (sr_skip s) of
                  (Some e, rd) \<Rightarrow> (Some e, s\<lparr>sr_reader := rd, sr_skipOnce := True\<rparr>)
                | (None, rd) \<Rightarrow>
                    (None, s\<lparr>sr_reader := rd, sr_skipOnce := True, sr_skipped := sr_skip s\<rparr>))
             else (None, s))
      in case err of
           Some e \<Rightarrow> ([], Some e, s1)
         | None \<Rightarrow>
             if sr_length s1 > 0 \<and> sr_read s1 \<ge> sr_length s1 then ([], Some EOF, s1)
             else
               (let n1 = (if sr_length s1 > 0 \<and> int n > sr_length s1 - sr_read s1
                          then nat (sr_length s1 - sr_read s1) else n)
                in case stream_Read (sr_reader s1) n1 of
                     (bs, e, rd) \<Rightarrow>
                       (bs, e, s1\<lparr>sr_reader := rd, sr_read := sr_read s1 + int (length bs)\<rparr>)))"

text \<open>
  The readers that \<open>RangeRequest\<close> hands out: the response body, a \<open>skipReader\<close> over
  it, or \<open>io.NopCloser(strings.NewReader(""))\<close>.
\<close>

datatype reader = BodyReader stream | SkipReader skipReader | EmptyReader

fun reader_Read :: "reader \<Rightarrow> nat \<Rightarrow> byte list \<times> error option \<times> reader" where
  "reader_Read (BodyReader s) n =
     (case stream_Read s n of (bs, e, s') \<Rightarrow> (bs, e, BodyReader s'))"
| "reader_Read (SkipReader s) n =
     (case skipReader_Read s n of (bs, e, s') \<Rightarrow> (bs, e, SkipReader s'))"
| "reader_Read EmptyReader n = ([], Some EOF, EmptyReader)"

text \<open>
  The request that the client sends: the header map after the \<open>Set\<close> calls, and the
  \<open>Range\<close> header among them. The network and the origin are a parameter:
  \<open>tr_NewRequest url\<close> is the error, if any, of \<open>http.NewRequestWithContext\<close>, and
  \<open>tr_Do req\<close> the result of \<open>httpClient.Do(req)\<close>. The requests sent are logged in
  order; the log is the state of the network that the model threads through.
\<close>

record Request =
  rq_method :: string
  rq_url :: string
  rq_header :: "string \<rightharpoonup> string"

record Response =
  rs_StatusCode :: int
  rs_ContentLength :: int
  rs_Body :: stream

record Transport =
  tr_NewRequest :: "string \<Rightarrow> error option"
  tr_Do :: "Request \<Rightarrow> error + Response"

record Client =
  cl_headers :: "string \<rightharpoonup> string"
  cl_userAgent :: string

definition range_header :: "int \<Rightarrow> int \<Rightarrow> string" where
  "range_header start len =
     (if len > 0
      then ''bytes='' @ show_int start @ ''-'' @ show_int (wrap64 (start + len - 1))
      else ''bytes='' @ show_int start @ ''-'')"

definition new_request :: "Client \<Rightarrow> string \<Rightarrow> int \<Rightarrow> int \<Rightarrow> Request" where
  "new_request c url start len =
     (let h1 = cl_headers c;
          h2 = (if cl_userAgent c \<noteq> [] then h1(''User-Agent'' \<mapsto> cl_userAgent c) else h1);
          h3 = h2(''Range'' \<mapsto> range_header start len)
      in \<lparr>rq_method = ''GET'', rq_url = url, rq_header = h3\<rparr>)"

definition RangeRequest :: "Transport \<Rightarrow> Client \<Rightarrow> Request list \<Rightarrow> string \<Rightarrow> int \<Rightarrow> int
                            \<Rightarrow> (error + reader) \<times> Request list" where
  "RangeRequest net c log url start len =
     (if len = 0 then (Inr EmptyReader, log)
      else case tr_NewRequest net url of
        Some err \<Rightarrow> (Inl (WrapError err ''failed to create HTTP request''), log)
      | None \<Rightarrow>
          (let req = new_request c url start len in
           case tr_Do net req of
             Inl err \<Rightarrow> (Inl (WrapError err ''HTTP request failed''), log @ [req])
           | Inr resp \<Rightarrow>
               if rs_StatusCode resp = 206 \<or> rs_StatusCode resp = 200 then
                 (if rs_StatusCode resp = 200 \<and> start > 0 then
                    (let len1 = (if len = - 1
                                    then wrap64 (rs_ContentLength resp - start)
                                    else len)
                     in (Inr (SkipReader \<lparr>sr_reader = rs_Body resp, sr_skip = start,
                                           sr_length = len1, sr_skipped = 0, sr_read = 0,
                                           sr_skipOnce = False\<rparr>),
                         log @ [req]))
                  else (Inr (BodyReader (rs_Body resp)), log @ [req]))
               else
                 (Inl (NewError (''unexpected status code: '' @ show_int (rs_StatusCode resp))),
                  log @ [req])))"

section \<open>rangehttp: the RangeReader\<close>

text \<open>
  A stream shrinks with every \<open>Read\<close> into a non-empty buffer that returns no error;
  \<open>reader_size\<close> measures it, for the termination of the loops that read a stream to
  its end.
\<close>

definition stream_size :: "stream \<Rightarrow> nat" where
  "stream_size s = sum_list (map length (st_chunks s)) + length (st_chunks s)"

fun reader_size :: "reader \<Rightarrow> nat" where
  "reader_size (BodyReader s) = stream_size s"
| "reader_size (SkipReader s) = stream_size (sr_reader s)"
| "reader_size EmptyReader = 0"

lemma stream_Read_size:
  "stream_Read s n = (bs, None, s') \<Longrightarrow> 0 < n \<Longrightarrow> stream_size s' < stream_size s"
  by (auto simp: stream_Read_def stream_size_def split: list.splits if_splits)

lemma discard_chunks_size:
  "discard_chunks n cs = (w, r) \<Longrightarrow>
   sum_list (map length r) + length r \<le> sum_list (map length cs) + length cs"
proof (induction n cs arbitrary: w r rule: discard_chunks.induct)
  case (1 n)
  then show ?case by simp
next
  case (2 n c cs)
  show ?case
  proof (cases "n = 0")
    case True
    with "2.prems" show ?thesis by auto
  next
    case n: False
    show ?thesis
    proof (cases "length c \<le> n")
      case True
      obtain w' r' where d: "discard_chunks (n - length c) cs = (w', r')"
        by (cases "discard_chunks (n - length c) cs")
      from "2.prems" n True d have "r = r'" by simp
      moreover from "2.IH" [OF n True d]
      have "sum_list (map length r') + length r' \<le> sum_list (map length cs) + length cs" .
      ultimately show ?thesis by simp
    next
      case False
      with "2.prems" n show ?thesis by auto
    qed
  qed
qed

lemma CopyN_Discard_size:
  "CopyN_Discard s n = (e, s') \<Longrightarrow> stream_size s' \<le> stream_size s"
  by (auto simp: CopyN_Discard_def stream_size_def split: if_splits prod.splits
           dest: discard_chunks_size)

lemma skipReader_Read_size:
  assumes "skipReader_Read s n = (bs, None, s')" and "0 < n"
  shows "stream_size (sr_reader s') < stream_size (sr_reader s)"
proof -
  obtain e0 rd0 where c: "CopyN_Discard (sr_reader s) (sr_skip s) = (e0, rd0)"
    by (cases "CopyN_Discard (sr_reader s) (sr_skip s)")
  have le: "stream_size rd0 \<le> stream_size (sr_reader s)"
    using CopyN_Discard_size [OF c] .
  from assms c le show ?thesis
    by (auto simp: skipReader_Read_def Let_def
             split: if_splits prod.splits option.splits
             dest!: stream_Read_size)
qed

lemma reader_Read_size:
  "reader_Read r n = (bs, None, r') \<Longrightarrow> 0 < n \<Longrightarrow> reader_size r' < reader_size r"
  by (cases r) (auto split: prod.splits dest: stream_Read_size skipReader_Read_size)

text \<open>
  The fields of \<open>RangeReader\<close> that \<open>ReadAt\<close> uses; the client and the network are
  arguments of \<open>ReadAt\<close>.
\<close>

record RangeReader =
  rr_url :: string
  rr_size :: int
  rr_closed :: bool

text \<open>
  \<^verbatim>\<open>
  total := 0
  for total < int(length) {
      nn, err := reader.Read(p[total:])
      total += nn
      if err != nil {
          if err == io.EOF && total == int(length) { return total, nil }
          return total, err
      }
  }
  return total, nil
  \<close>
  \<open>buf\<close> holds the bytes stored in \<open>p\<close> so far, \<open>total\<close> is its length and \<open>plen\<close> is
  \<open>len(p)\<close>. \<open>ReadAt\<close> enters the loop with \<open>length \<le> len(p)\<close>, so \<open>p[total:]\<close> is
  not empty inside the loop; the model leaves the loop otherwise.
\<close>

function ReadAt_loop :: "reader \<Rightarrow> nat \<Rightarrow> int \<Rightarrow> byte list \<Rightarrow> byte list \<times> error option" where
  "ReadAt_loop reader plen len buf =
     (if int (length buf) < len \<and> length buf < plen then
        (case reader_Read reader (plen - length buf) of
           (bs, Some err, reader') \<Rightarrow>
             (if err = EOF \<and> int (length (buf @ bs)) = len then (buf @ bs, None)
              else (buf @ bs, Some err))
         | (bs, None, reader') \<Rightarrow> ReadAt_loop reader' plen len (buf @ bs))
      else (buf, None))"
  by pat_completeness auto
termination
  by (relation "measure (\<lambda>(reader, plen, len, buf). reader_size reader)")
     (auto dest: reader_Read_size [OF sym])

text \<open>
  \<open>ReadAt(p, off)\<close> with \<open>len(p) = plen\<close>: the bytes stored in \<open>p\<close> (their number is
  the \<open>n\<close> returned), the error, and the log of the requests sent.
\<close>

definition ReadAt :: "Transport \<Rightarrow> Client \<Rightarrow> RangeReader \<Rightarrow> Request list \<Rightarrow> nat \<Rightarrow> int
                      \<Rightarrow> (byte list \<times> error option) \<times> Request list" where
  "ReadAt net c r log plen off =
     (if rr_closed r then (([], Some (NewError ''reader is closed'')), log)
      else if off < 0 then (([], Some (NewError ''negative offset'')), log)
      else if off \<ge> rr_size r then (([], Some EOF), log)
      else
        (let len0 = int plen;
             len = (if wrap64 (off + len0) > rr_size r then wrap64 (rr_size r - off) else len0)
         in case RangeRequest net c log (rr_url r) off len of
              (Inl err, log') \<Rightarrow> (([], Some err), log')
            | (Inr reader, log') \<Rightarrow> (ReadAt_loop reader plen len [], log')))"

text \<open>
  What a reader yields to a caller that reads it to its end, as \<open>io.ReadAll\<close> does,
  with a buffer of \<open>k + 1\<close> bytes: all the bytes, and the error unless it is \<open>io.EOF\<close>.
\<close>

function ReadAll_loop :: "nat \<Rightarrow> reader \<Rightarrow> byte list \<Rightarrow> byte list \<times> error option" where
  "ReadAll_loop k r acc =
     (case reader_Read r (Suc k) of
        (bs, Some err, r') \<Rightarrow> (acc @ bs, if err = EOF then None else Some err)
      | (bs, None, r') \<Rightarrow> ReadAll_loop k r' (acc @ bs))"
  by pat_completeness auto
termination
  by (relation "measure (\<lambda>(k, r, acc). reader_size r)")
     (auto dest: reader_Read_size [OF sym])

definition ReadAll :: "nat \<Rightarrow> reader \<Rightarrow> byte list \<times> error option" where
  "ReadAll k r = ReadAll_loop k r []"

section \<open>lib: the facade\<close>

text \<open>
  \<open>Archive.ExtractFile\<close>. The handler behind the \<open>Format\<close> interface is the argument
  \<open>format_ExtractFile\<close>; it runs on the state \<open>w\<close> of the network (the requests sent so
  far) and returns the new state with its result.
\<close>

definition Archive_ExtractFile ::
  "('w \<Rightarrow> string \<Rightarrow> string \<Rightarrow> (error + 'r) \<times> 'w) \<Rightarrow> 'w \<Rightarrow> string \<Rightarrow> string
   \<Rightarrow> (error + 'r) \<times> 'w" where
  "Archive_ExtractFile format_ExtractFile w filePath password =
     (if \<not> IsValidPath filePath then (Inl ErrPathTraversal, w)
      else format_ExtractFile w filePath password)"

text \<open>
  \<open>GetInfo\<close>, called with the empty password, meets encryption: the conditions under
  which the code of each handler sets \<open>IsEncrypted\<close>. ZIP: an entry has the encryption
  flag. RAR: \<open>Next()\<close> fails with an error whose text names a password or encryption.
  7z: opening the archive, or an entry, fails with such an error. TAR: never.
\<close>

fun encryption_seen :: "archive \<Rightarrow> bool" where
  "encryption_seen (ZipArchive a) =
     (case a of Inl err \<Rightarrow> False | Inr zipReader \<Rightarrow> list_ex zf_IsEncrypted (zr_File zipReader))"
| "encryption_seen (RarArchive a) =
     (case ra_NewReader a [] of
        Inl err \<Rightarrow> False
      | Inr (headers, err) \<Rightarrow> err \<noteq> EOF \<and> is_password_text err)"
| "encryption_seen (SevenZipArchive a) =
     (case sa_NewReader a [] of
        Inl err \<Rightarrow> is_password_text err
      | Inr files \<Rightarrow>
          list_ex open_encrypted files)"
| "encryption_seen (TarArchive a) = False"

section \<open>Segments of a path\<close>

text \<open>
  \<open>strings.Join(elems, "/")\<close>, the inverse of \<open>Split_slash\<close>, and the path elements
  that \<open>path.Clean\<close> keeps as they are: not empty, without \<open>'/'\<close>, and neither
  \<open>"."\<close> nor \<open>".."\<close>. \<open>render rooted k segs\<close> is the path made of \<open>k\<close> elements
  \<open>".."\<close> followed by the elements \<open>segs\<close>, behind a \<open>'/'\<close> when it is rooted: the
  shape of the output buffer of \<open>Clean\<close>.
\<close>

fun Join_slash :: "string list \<Rightarrow> string" where
  "Join_slash [] = []"
| "Join_slash [s] = s"
| "Join_slash (s # t # ss) = s @ CHR ''/'' # Join_slash (t # ss)"

definition is_name :: "string \<Rightarrow> bool" where
  "is_name s = (s \<noteq> [] \<and> CHR ''/'' \<notin> set s \<and> s \<noteq> ''.'' \<and> s \<noteq> ''..'')"

definition render :: "bool \<Rightarrow> nat \<Rightarrow> string list \<Rightarrow> string" where
  "render rooted k segs =
     (if rooted then ''/'' else []) @ Join_slash (replicate k ''..'' @ segs)"

declare backtrack_loop.simps [simp del]
declare show_nat.simps [simp del]
declare ReadAt_loop.simps [simp del]
declare ReadAll_loop.simps [simp del]

section \<open>Example inputs\<close>

text \<open>
  A client, an origin that ignores the \<open>Range\<close> header and answers every request with
  200 OK and the whole file of ten bytes, and range readers over it.
\<close>

definition ex_client :: Client where
  "ex_client = \<lparr>cl_headers = Map.empty, cl_userAgent = ''Stream-7z/1.0''\<rparr>"

definition ex_body :: stream where
  "ex_body = \<lparr>st_chunks = [[0, 1, 2], [3], [], [4, 5, 6, 7, 8, 9]], st_err = EOF\<rparr>"

definition ex_net :: Transport where
  "ex_net = \<lparr>tr_NewRequest = (\<lambda>url. None),
             tr_Do = (\<lambda>req. Inr \<lparr>rs_StatusCode = 200, rs_ContentLength = 10,
                                    rs_Body = ex_body\<rparr>)\<rparr>"

definition ex_reader :: RangeReader where
  "ex_reader = \<lparr>rr_url = ''http://host/a.tar'', rr_size = 10, rr_closed = False\<rparr>"

definition ex_closed_reader :: RangeReader where
  "ex_closed_reader = \<lparr>rr_url = ''http://host/a.tar'', rr_size = 10, rr_closed = True\<rparr>"

text \<open>A plain TAR archive with the file \<open>a.txt\<close> and the file \<open>d/b.txt\<close>.\<close>

definition ex_tar :: tar_archive where
  "ex_tar = \<lparr>ta_ReadAt0 = Inr [], ta_gzip_NewReader = None, ta_xz_NewReader = None,
             ta_headers =
               [\<lparr>th_Name = ''a.txt'', th_Size = 3, th_ModTime = 0, th_Typeflag = 0x30,
                 th_Data = [1, 2, 3]\<rparr>,
                \<lparr>th_Name = ''d/b.txt'', th_Size = 1, th_ModTime = 0, th_Typeflag = 0x30,
                 th_Data = [7]\<rparr>],
             ta_err = EOF\<rparr>"

text \<open>
  A charset detector that recognises nothing, and a ZIP archive with the plain file
  \<open>readme.txt\<close> and the encrypted file \<open>docs/secret.txt\<close>, whose password is
  \<open>pw\<close>.
\<close>

definition ex_env :: charset_env where
  "ex_env = \<lparr>DetectAll = (\<lambda>b. Inr []), Decode = (\<lambda>enc b. Inr b)\<rparr>"

definition ex_zip :: zip_archive where
  "ex_zip = Inr \<lparr>zr_File =
               [\<lparr>zf_Name = ''readme.txt'', zf_IsEncrypted = False, zf_Open = (\<lambda>pw. None),
                 zf_UncompressedSize64 = 13, zf_CompressedSize64 = 13, zf_ModTime = 0,
                 zf_IsDir = False, zf_Data = []\<rparr>,
                \<lparr>zf_Name = ''docs/secret.txt'', zf_IsEncrypted = True,
                 zf_Open = (\<lambda>pw. if pw = ''pw'' then None
                                   else Some (ExtError ''zip: invalid password'')),
                 zf_UncompressedSize64 = 5, zf_CompressedSize64 = 17, zf_ModTime = 0,
                 zf_IsDir = False, zf_Data = []\<rparr>],
             zr_Comment = []\<rparr>"

definition ex_zip_info :: ArchiveInfo where
  "ex_zip_info = \<lparr>IsEncrypted = True, RequiresPassword = True, TotalFiles = 2,
                  TotalSize = 18,
                  Files = [\<lparr>Path = ''readme.txt'', Size = 13, CompressedSize = 13,
                            ModTime = 0, IsDir = False\<rparr>,
                           \<lparr>Path = ''docs/secret.txt'', Size = 5, CompressedSize = 17,
                            ModTime = 0, IsDir = False\<rparr>],
                  Comment = []\<rparr>"

text \<open>
  The entries of \<open>ex_tar\<close>, and a 7z archive without encryption that holds the same
  two files.
\<close>

definition ex_tar_entries :: "FileEntry list" where
  "ex_tar_entries =
     [\<lparr>Path = ''a.txt'', Size = 3, CompressedSize = 0, ModTime = 0, IsDir = False\<rparr>,
      \<lparr>Path = ''d/b.txt'', Size = 1, CompressedSize = 0, ModTime = 0, IsDir = False\<rparr>]"

definition ex_7z :: sz_archive where
  "ex_7z = \<lparr>sa_NewReader = (\<lambda>password.
               Inr [\<lparr>sf_Name = ''a.txt'', sf_UncompressedSize = 3, sf_Modified = 0,
                     sf_IsDir = False, sf_Open = None, sf_Data = [1, 2, 3]\<rparr>,
                    \<lparr>sf_Name = ''d/b.txt'', sf_UncompressedSize = 1, sf_Modified = 0,
                     sf_IsDir = False, sf_Open = None, sf_Data = [7]\<rparr>])\<rparr>"

text \<open>
  A handler behind the facade that sends one range request and returns a stream of two
  bytes.
\<close>

definition ex_handler :: "Request list \<Rightarrow> string \<Rightarrow> string
                          \<Rightarrow> (error + byte list \<times> int) \<times> Request list" where
  "ex_handler w filePath password =
     (Inr ([104, 105], 2), w @ [new_request ex_client ''http://host/a.tar'' 0 512])"

section \<open>Path normalization\<close>

subsection \<open>Normalization adds no ".."\<close>

lemma sublist2_append:
  "sublist [a, b] (xs @ ys) \<longleftrightarrow>
     sublist [a, b] xs \<or> sublist [a, b] ys \<or> (xs \<noteq> [] \<and> ys \<noteq> [] \<and> last xs = a \<and> hd ys = b)"
proof (induction xs)
  case Nil
  then show ?case by simp
next
  case (Cons x xs)
  show ?case
  proof (cases xs)
    case Nil
    then show ?thesis
      by (cases ys) (auto simp: sublist_Cons_right)
  next
    case (Cons x' xs')
    with Cons.IH show ?thesis
      by (auto simp: sublist_Cons_right)
  qed
qed

lemma not_sublist_dropWhile: "\<not> sublist s xs \<Longrightarrow> \<not> sublist s (dropWhile P xs)"
  by (metis sublist_order.order.trans suffix_dropWhile suffix_imp_sublist)

lemma sublist_Cons_takeWhile: "\<not> sublist s (c # xs) \<Longrightarrow> \<not> sublist s (c # takeWhile P xs)"
proof -
  have "prefix (c # takeWhile P xs) (c # xs)"
    by (simp add: takeWhile_is_prefix)
  then show "\<not> sublist s (c # xs) \<Longrightarrow> \<not> sublist s (c # takeWhile P xs)"
    by (meson prefix_imp_sublist sublist_order.order.trans)
qed

lemma clean_loop_real:
  assumes "c \<noteq> CHR ''/''"
    and "\<not> (c = CHR ''.'' \<and> (rest = [] \<or> hd rest = CHR ''/''))"
    and "\<not> (c = CHR ''.'' \<and> hd rest = CHR ''.'' \<and> (tl rest = [] \<or> hd (tl rest) = CHR ''/''))"
  shows "clean_loop rooted (c # rest) out dotdot =
         clean_loop rooted (dropWhile (\<lambda>x. x \<noteq> CHR ''/'') rest)
           ((if (rooted \<and> length out \<noteq> 1) \<or> (\<not> rooted \<and> length out \<noteq> 0)
             then out @ ''/'' else out) @ c # takeWhile (\<lambda>x. x \<noteq> CHR ''/'') rest) dotdot"
  using assms by (simp only: clean_loop.simps if_False Let_def)

lemma clean_loop_no_dotdot:
  "\<not> sublist ''..'' path \<Longrightarrow> \<not> sublist ''..'' out \<Longrightarrow>
   (rooted \<longrightarrow> out \<noteq> [] \<and> hd out = CHR ''/'') \<Longrightarrow>
   \<not> sublist ''..'' (clean_loop rooted path out dotdot)"
proof (induction rooted path out dotdot rule: clean_loop.induct)
  case (1 rooted out dotdot)
  then show ?case by simp
next
  case (2 rooted c rest out dotdot)
  from "2.prems"(1) have rest: "\<not> sublist ''..'' rest"
    by (simp add: sublist_Cons_right)
  show ?case
  proof (cases "c = CHR ''/''")
    case True
    with "2.IH"(1) [OF True rest "2.prems"(2,3)] show ?thesis by simp
  next
    case c1: False
    show ?thesis
    proof (cases "c = CHR ''.'' \<and> (rest = [] \<or> hd rest = CHR ''/'')")
      case True
      with c1 "2.IH"(2) [OF c1 True rest "2.prems"(2,3)] show ?thesis by simp
    next
      case c2: False
      have c3: "\<not> (c = CHR ''.'' \<and> hd rest = CHR ''.''
                  \<and> (tl rest = [] \<or> hd (tl rest) = CHR ''/''))"
      proof
        assume a: "c = CHR ''.'' \<and> hd rest = CHR ''.''
                  \<and> (tl rest = [] \<or> hd (tl rest) = CHR ''/'')"
        with c2 have "rest \<noteq> []" by auto
        with a obtain r' where "c = CHR ''.''" and "rest = CHR ''.'' # r'"
          by (cases rest) auto
        with "2.prems"(1) show False by (simp add: sublist_Cons_right)
      qed
      define out1 where "out1 = (if (rooted \<and> length out \<noteq> 1) \<or> (\<not> rooted \<and> length out \<noteq> 0)
                     then out @ ''/'' else out)"
      define el where "el = c # takeWhile (\<lambda>x. x \<noteq> CHR ''/'') rest"
      have el: "\<not> sublist ''..'' el"
        unfolding el_def using "2.prems"(1) by (rule sublist_Cons_takeWhile)
      have o1: "\<not> sublist ''..'' (out1 @ el)"
      proof (cases "(rooted \<and> length out \<noteq> 1) \<or> (\<not> rooted \<and> length out \<noteq> 0)")
        case True
        then have "out1 @ el = out @ CHR ''/'' # el" by (simp add: out1_def)
        with el "2.prems"(2) show ?thesis
          by (simp add: sublist2_append [of _ _ out] sublist_Cons_right)
      next
        case False
        with "2.prems"(3) have "out = [] \<or> out = ''/''"
          by (cases out) auto
        with False el show ?thesis
          by (auto simp: out1_def sublist_Cons_right el_def c1)
      qed
      have o2: "rooted \<longrightarrow> out1 @ el \<noteq> [] \<and> hd (out1 @ el) = CHR ''/''"
        using "2.prems"(3) by (auto simp: out1_def el_def)
      have d: "\<not> sublist ''..'' (dropWhile (\<lambda>x. x \<noteq> CHR ''/'') rest)"
        using rest by (rule not_sublist_dropWhile)
      have step: "clean_loop rooted (c # rest) out dotdot =
          clean_loop rooted (dropWhile (\<lambda>x. x \<noteq> CHR ''/'') rest) (out1 @ el) dotdot"
        unfolding out1_def el_def by (rule clean_loop_real [OF c1 c2 c3])
      from "2.IH"(6) [OF c1 c2 c3 out1_def d] o1 o2
      have "\<not> sublist ''..'' (clean_loop rooted (dropWhile (\<lambda>x. x \<noteq> CHR ''/'') rest)
              (out1 @ el) dotdot)"
        by (simp add: el_def)
      then show ?thesis
        unfolding step .
    qed
  qed
qed

lemma TrimPrefix_no_dotdot: "\<not> sublist ''..'' s \<Longrightarrow> \<not> sublist ''..'' (TrimPrefix s pre)"
  by (metis TrimPrefix_def sublist_order.order.trans suffix_drop suffix_imp_sublist)

lemma Clean_no_dotdot: "\<not> sublist ''..'' path \<Longrightarrow> \<not> sublist ''..'' (Clean path)"
proof (cases path)
  case Nil
  then show ?thesis by (simp add: Clean_def sublist_Cons_right)
next
  case (Cons c rest)
  assume n: "\<not> sublist ''..'' path"
  with Cons have r: "\<not> sublist ''..'' rest" by (simp add: sublist_Cons_right)
  have dot: "\<not> sublist ''..'' ''.''" by (simp add: sublist_Cons_right)
  show ?thesis
  proof (cases "c = CHR ''/''")
    case True
    have "\<not> sublist ''..'' (clean_loop True rest ''/'' 1)"
      using r by (intro clean_loop_no_dotdot) (simp_all add: sublist_Cons_right)
    with Cons True dot show ?thesis by (simp add: Clean_def Let_def)
  next
    case False
    have "\<not> sublist ''..'' (clean_loop False (c # rest) [] 0)"
      using n Cons by (intro clean_loop_no_dotdot) simp_all
    with Cons False dot show ?thesis by (simp add: Clean_def Let_def)
  qed
qed

lemma NormalizePath_no_dotdot:
  "\<not> Contains p ''..'' \<Longrightarrow> \<not> Contains (NormalizePath p) ''..''"
  unfolding Contains_def NormalizePath_def
  by (intro TrimPrefix_no_dotdot Clean_no_dotdot)

lemma IsValidPath_iff: "IsValidPath p \<longleftrightarrow> \<not> Contains p ''..''"
  using NormalizePath_no_dotdot [of p] by (auto simp: IsValidPath_def)

lemma Split_slash_sublist: "s \<in> set (Split_slash t) \<Longrightarrow> sublist s t"
proof (induction t arbitrary: s)
  case Nil
  then show ?case by simp
next
  case (Cons c cs)
  show ?case
  proof (cases "c = CHR ''/''")
    case True
    with Cons.prems have "s = [] \<or> s \<in> set (Split_slash cs)" by simp
    with Cons.IH show ?thesis by (auto simp: sublist_Cons_right)
  next
    case False
    obtain x xs where sp: "Split_slash cs = x # xs"
      by (cases "Split_slash cs") (cases cs, auto split: if_splits list.splits)
    have px: "prefix x cs"
      using sp by (induction cs arbitrary: x xs) (auto split: if_splits list.splits)
    from Cons.prems False sp have "s = c # x \<or> s \<in> set xs" by simp
    then show ?thesis
    proof
      assume "s = c # x"
      with px show ?thesis by (simp add: sublist_Cons_right)
    next
      assume "s \<in> set xs"
      with sp have "s \<in> set (Split_slash cs)" by simp
      from Cons.IH [OF this] show ?thesis by (simp add: sublist_Cons_right)
    qed
  qed
qed

subsection \<open>Backtracking removes the last element\<close>

lemma Join_slash_snoc: "xs \<noteq> [] \<Longrightarrow> Join_slash (xs @ [e]) = Join_slash xs @ CHR ''/'' # e"
  by (induction xs rule: Join_slash.induct) simp_all

lemma Join_slash_Nil_iff: "[] \<notin> set xs \<Longrightarrow> Join_slash xs = [] \<longleftrightarrow> xs = []"
  by (induction xs rule: Join_slash.induct) auto

lemma backtrack_loop_element:
  "CHR ''/'' \<notin> set s \<Longrightarrow> removed \<noteq> CHR ''/'' \<Longrightarrow> d = length pre \<Longrightarrow>
   backtrack_loop (pre @ s) d removed = pre"
proof (induction s arbitrary: removed rule: rev_induct)
  case Nil
  then show ?case by (simp add: backtrack_loop.simps)
next
  case (snoc x xs)
  from snoc.prems have x: "x \<noteq> CHR ''/''" and xs: "CHR ''/'' \<notin> set xs"
    by auto
  from snoc.prems have "backtrack_loop (pre @ xs @ [x]) d removed = backtrack_loop (pre @ xs) d x"
    by (subst backtrack_loop.simps) (simp add: butlast_append)
  with snoc.IH [OF xs x snoc.prems(3)] show ?case by simp
qed

lemma backtrack_loop_slash_element:
  "CHR ''/'' \<notin> set s \<Longrightarrow> removed \<noteq> CHR ''/'' \<Longrightarrow> d \<le> length pre \<Longrightarrow>
   backtrack_loop (pre @ CHR ''/'' # s) d removed = pre"
proof (induction s arbitrary: removed rule: rev_induct)
  case Nil
  then have "backtrack_loop (pre @ ''/'') d removed = backtrack_loop pre d CHR ''/''"
    by (subst backtrack_loop.simps) simp
  then show ?case by (simp add: backtrack_loop.simps)
next
  case (snoc x xs)
  from snoc.prems have x: "x \<noteq> CHR ''/''" and xs: "CHR ''/'' \<notin> set xs"
    by auto
  from snoc.prems have "backtrack_loop (pre @ CHR ''/'' # xs @ [x]) d removed
      = backtrack_loop (pre @ CHR ''/'' # xs) d x"
    by (subst backtrack_loop.simps) (simp add: butlast_append)
  with snoc.IH [OF xs x snoc.prems(3)] show ?case by simp
qed

lemma backtrack_element:
  "s \<noteq> [] \<Longrightarrow> CHR ''/'' \<notin> set s \<Longrightarrow> d = length pre \<Longrightarrow> backtrack (pre @ s) d = pre"
proof -
  assume s: "s \<noteq> []" and n: "CHR ''/'' \<notin> set s" and d: "d = length pre"
  from s obtain xs x where sx: "s = xs @ [x]" by (cases s rule: rev_cases) auto
  with n have "CHR ''/'' \<notin> set xs" "x \<noteq> CHR ''/''" by auto
  from backtrack_loop_element [OF this d] sx show ?thesis
    by (simp add: backtrack_def butlast_append)
qed

lemma backtrack_slash_element:
  "s \<noteq> [] \<Longrightarrow> CHR ''/'' \<notin> set s \<Longrightarrow> d \<le> length pre \<Longrightarrow>
   backtrack (pre @ CHR ''/'' # s) d = pre"
proof -
  assume s: "s \<noteq> []" and n: "CHR ''/'' \<notin> set s" and d: "d \<le> length pre"
  from s obtain xs x where sx: "s = xs @ [x]" by (cases s rule: rev_cases) auto
  with n have "CHR ''/'' \<notin> set xs" "x \<noteq> CHR ''/''" by auto
  from backtrack_loop_slash_element [OF this d] sx show ?thesis
    by (simp add: backtrack_def butlast_append)
qed

lemma render_snoc:
  "render rooted k (segs @ [s]) =
     render rooted k segs @ (if k = 0 \<and> segs = [] then s else CHR ''/'' # s)"
proof (cases "k = 0 \<and> segs = []")
  case True
  then show ?thesis by (simp add: render_def)
next
  case False
  then have "replicate k ''..'' @ segs \<noteq> []" by auto
  from Join_slash_snoc [OF this, of s] False show ?thesis
    by (simp add: render_def)
qed

lemma render_mono: "length (render rooted k []) \<le> length (render rooted k segs)"
proof (induction segs rule: rev_induct)
  case Nil
  then show ?case by simp
next
  case (snoc s segs)
  then show ?case by (simp add: render_snoc)
qed

lemma render_longer:
  assumes "segs \<noteq> []" and "[] \<notin> set segs"
  shows "length (render rooted k []) < length (render rooted k segs)"
proof -
  from assms obtain segs0 s where sg: "segs = segs0 @ [s]" and s: "s \<noteq> []"
    by (cases segs rule: rev_cases) auto
  have "length (render rooted k []) \<le> length (render rooted k segs0)"
    by (rule render_mono)
  with s show ?thesis
    unfolding sg render_snoc by simp
qed

lemma render_backtrack:
  assumes "s \<noteq> []" and "CHR ''/'' \<notin> set s"
  shows "backtrack (render rooted k (segs @ [s])) (length (render rooted k [])) = render rooted k segs"
proof (cases "k = 0 \<and> segs = []")
  case True
  then have "render rooted k (segs @ [s]) = render rooted k [] @ s"
    by (simp add: render_def)
  with backtrack_element [OF assms refl, of "render rooted k []"] True show ?thesis
    by simp
next
  case False
  then have "render rooted k (segs @ [s]) = render rooted k segs @ CHR ''/'' # s"
    by (simp add: render_snoc)
  with backtrack_slash_element [OF assms render_mono, of rooted k segs] show ?thesis
    by simp
qed

lemma render_empty_iff:
  assumes "[] \<notin> set segs" and "rooted \<longrightarrow> k = 0"
  shows "((rooted \<and> length (render rooted k segs) \<noteq> 1) \<or>
          (\<not> rooted \<and> length (render rooted k segs) \<noteq> 0)) \<longleftrightarrow> \<not> (k = 0 \<and> segs = [])"
proof -
  from assms(1) have "[] \<notin> set (replicate k ''..'' @ segs)" by auto
  from Join_slash_Nil_iff [OF this] assms(2) show ?thesis
    by (auto simp: render_def)
qed

subsection \<open>The output buffer of Clean\<close>

lemma element_is_name:
  assumes c1: "c \<noteq> CHR ''/''"
    and c2: "\<not> (c = CHR ''.'' \<and> (rest = [] \<or> hd rest = CHR ''/''))"
    and c3: "\<not> (c = CHR ''.'' \<and> hd rest = CHR ''.'' \<and> (tl rest = [] \<or> hd (tl rest) = CHR ''/''))"
  shows "is_name (c # takeWhile (\<lambda>x. x \<noteq> CHR ''/'') rest)"
proof -
  have n: "CHR ''/'' \<notin> set (c # takeWhile (\<lambda>x. x \<noteq> CHR ''/'') rest)"
    using c1 by (auto dest: set_takeWhileD)
  have d1: "c # takeWhile (\<lambda>x. x \<noteq> CHR ''/'') rest \<noteq> ''.''"
  proof
    assume "c # takeWhile (\<lambda>x. x \<noteq> CHR ''/'') rest = ''.''"
    then have "c = CHR ''.''" and "takeWhile (\<lambda>x. x \<noteq> CHR ''/'') rest = []" by simp_all
    then have "c = CHR ''.'' \<and> (rest = [] \<or> hd rest = CHR ''/'')"
      by (cases rest) (auto split: if_splits)
    with c2 show False by simp
  qed
  have d2: "c # takeWhile (\<lambda>x. x \<noteq> CHR ''/'') rest \<noteq> ''..''"
  proof
    assume "c # takeWhile (\<lambda>x. x \<noteq> CHR ''/'') rest = ''..''"
    then have c: "c = CHR ''.''" and t: "takeWhile (\<lambda>x. x \<noteq> CHR ''/'') rest = ''.''" by simp_all
    from t obtain r' where r: "rest = CHR ''.'' # r'" and t': "takeWhile (\<lambda>x. x \<noteq> CHR ''/'') r' = []"
      by (cases rest) (auto split: if_splits)
    from t' have "r' = [] \<or> hd r' = CHR ''/''"
      by (cases r') (auto split: if_splits)
    with c r c3 show False by simp
  qed
  from n d1 d2 show ?thesis by (simp add: is_name_def)
qed

lemma clean_loop_dot:
  assumes "c \<noteq> CHR ''/''" and "c = CHR ''.'' \<and> (rest = [] \<or> hd rest = CHR ''/'')"
  shows "clean_loop rooted (c # rest) out dotdot = clean_loop rooted rest out dotdot"
  using assms by simp

lemma clean_loop_dotdot:
  assumes "c \<noteq> CHR ''/''" and "\<not> (c = CHR ''.'' \<and> (rest = [] \<or> hd rest = CHR ''/''))"
    and "c = CHR ''.'' \<and> hd rest = CHR ''.'' \<and> (tl rest = [] \<or> hd (tl rest) = CHR ''/'')"
  shows "clean_loop rooted (c # rest) out dotdot =
         (if length out > dotdot then
            clean_loop rooted (tl rest) (backtrack out dotdot) dotdot
          else if \<not> rooted then
            clean_loop rooted (tl rest) ((if length out > 0 then out @ ''/'' else out) @ ''..'')
              (length ((if length out > 0 then out @ ''/'' else out) @ ''..''))
          else clean_loop rooted (tl rest) out dotdot)"
  using assms by (simp add: Let_def)

lemma render_dotdot:
  "(if length (render False k []) > 0 then render False k [] @ ''/'' else render False k []) @ ''..''
     = render False (Suc k) []"
proof (cases k)
  case 0
  then show ?thesis by (simp add: render_def)
next
  case (Suc j)
  have "replicate (Suc k) ''..'' = replicate k ''..'' @ [''..'']"
    by (simp add: replicate_append_same)
  moreover have "replicate k ''..'' \<noteq> []" using Suc by simp
  ultimately have "Join_slash (replicate (Suc k) ''..'') = Join_slash (replicate k ''..'') @ ''/..''"
    using Join_slash_snoc [of "replicate k ''..''" "''..''"] by simp
  moreover have "Join_slash (replicate k ''..'') \<noteq> []"
    using Join_slash_Nil_iff [of "replicate k ''..''"] Suc by auto
  ultimately show ?thesis by (simp add: render_def del: replicate_Suc)
qed

lemma clean_loop_render:
  "\<forall>s\<in>set segs. is_name s \<Longrightarrow> (rooted \<longrightarrow> k = 0) \<Longrightarrow> out = render rooted k segs \<Longrightarrow>
   dotdot = length (render rooted k []) \<Longrightarrow>
   \<exists>k' segs'. (\<forall>s\<in>set segs'. is_name s) \<and> (rooted \<longrightarrow> k' = 0) \<and>
      clean_loop rooted path out dotdot = render rooted k' segs'"
proof (induction rooted path out dotdot arbitrary: k segs rule: clean_loop.induct)
  case (1 rooted out dotdot)
  then show ?case by auto
next
  case (2 rooted c rest out dotdot)
  note names = "2.prems"(1) and rk = "2.prems"(2) and out = "2.prems"(3) and dd = "2.prems"(4)
  from names have ne: "[] \<notin> set segs" by (auto simp: is_name_def)
  show ?case
  proof (cases "c = CHR ''/''")
    case True
    from "2.IH"(1) [OF True names rk out dd] True show ?thesis by simp
  next
    case c1: False
    show ?thesis
    proof (cases "c = CHR ''.'' \<and> (rest = [] \<or> hd rest = CHR ''/'')")
      case True
      from "2.IH"(2) [OF c1 True names rk out dd] show ?thesis
        unfolding clean_loop_dot [OF c1 True] .
    next
      case c2: False
      show ?thesis
      proof (cases "c = CHR ''.'' \<and> hd rest = CHR ''.'' \<and> (tl rest = [] \<or> hd (tl rest) = CHR ''/'')")
        case c3: True
        note step = clean_loop_dotdot [OF c1 c2 c3, of rooted out dotdot]
        show ?thesis
        proof (cases "dotdot < length out")
          case True
          have "segs \<noteq> []"
          proof
            assume "segs = []"
            with out dd True show False by simp
          qed
          then obtain segs0 s where sg: "segs = segs0 @ [s]"
            by (cases segs rule: rev_cases) auto
          with names have s: "s \<noteq> []" "CHR ''/'' \<notin> set s" and names0: "\<forall>s\<in>set segs0. is_name s"
            by (auto simp: is_name_def)
          have b: "backtrack out dotdot = render rooted k segs0"
            unfolding out dd sg by (rule render_backtrack [OF s])
          from "2.IH"(3) [OF c1 c2 c3 True names0 rk b dd] True show ?thesis
            unfolding step by simp
        next
          case nb: False
          have sg: "segs = []"
          proof (rule ccontr)
            assume "segs \<noteq> []"
            from render_longer [OF this ne, of rooted k] out dd nb show False by simp
          qed
          show ?thesis
          proof (cases rooted)
            case True
            then have nn: "\<not> \<not> rooted" by simp
            from "2.IH"(5) [OF c1 c2 c3 nb nn names rk out dd] nb True show ?thesis
              unfolding step by simp
          next
            case False
            define x where "x = (if 0 < length out then out @ ''/'' else out)"
            define xa where "xa = x @ ''..''"
            have xa: "xa = render rooted (Suc k) []"
              unfolding xa_def x_def out sg using False render_dotdot [of k]
              by (auto split: if_splits)
            have names': "\<forall>s\<in>set ([]::string list). is_name s" by simp
            have rk': "rooted \<longrightarrow> Suc k = 0" using False by simp
            have dd': "length xa = length (render rooted (Suc k) [])" using xa by simp
            from "2.IH"(4) [OF c1 c2 c3 nb False x_def xa_def names' rk' xa dd'] nb False
            show ?thesis
              unfolding step xa_def x_def by simp
          qed
        qed
      next
        case c3: False
        define x where "x = (if rooted \<and> length out \<noteq> 1 \<or> \<not> rooted \<and> length out \<noteq> 0
           then out @ ''/'' else out)"
        define el where "el = c # takeWhile (\<lambda>x. x \<noteq> CHR ''/'') rest"
        have el: "is_name el"
          unfolding el_def by (rule element_is_name [OF c1 c2 c3])
        have step: "clean_loop rooted (c # rest) out dotdot =
            clean_loop rooted (dropWhile (\<lambda>x. x \<noteq> CHR ''/'') rest) (x @ el) dotdot"
          unfolding x_def el_def by (rule clean_loop_real [OF c1 c2 c3])
        have xe: "x @ el = render rooted k (segs @ [el])"
        proof (cases "k = 0 \<and> segs = []")
          case True
          with render_empty_iff [OF ne rk] have "x = out"
            unfolding x_def out by simp
          with True show ?thesis by (simp add: out render_def)
        next
          case False
          with render_empty_iff [OF ne rk] have "x = out @ ''/''"
            unfolding x_def out by simp
          with False show ?thesis by (simp add: out render_snoc)
        qed
        from names el have names': "\<forall>s\<in>set (segs @ [el]). is_name s" by simp
        from "2.IH"(6) [OF c1 c2 c3 x_def names' rk, folded el_def, OF xe dd] show ?thesis
          unfolding step .
      qed
    qed
  qed
qed

lemma Split_slash_no_slash: "CHR ''/'' \<notin> set s \<Longrightarrow> Split_slash s = [s]"
  by (induction s) auto

lemma Split_slash_append:
  "CHR ''/'' \<notin> set s \<Longrightarrow> Split_slash (s @ CHR ''/'' # t) = s # Split_slash t"
  by (induction s) auto

lemma Split_Join_slash:
  "xs \<noteq> [] \<Longrightarrow> \<forall>s\<in>set xs. CHR ''/'' \<notin> set s \<Longrightarrow> Split_slash (Join_slash xs) = xs"
  by (induction xs rule: Join_slash.induct) (simp_all add: Split_slash_no_slash Split_slash_append)

lemma clean_loop_rooted_start: "\<exists>k' segs'. (\<forall>s\<in>set segs'. is_name s) \<and> (True \<longrightarrow> k' = 0) \<and>
        clean_loop True (tl path) ''/'' 1 = render True k' segs'"
proof (rule clean_loop_render [of "[]" True 0])
  show "\<forall>s\<in>set []. is_name s" by simp
  show "True \<longrightarrow> (0::nat) = 0" by simp
  show "''/'' = render True 0 []" by (simp add: render_def)
  show "1 = length (render True 0 [])" by (simp add: render_def)
qed

lemma clean_loop_relative_start: "\<exists>k' segs'. (\<forall>s\<in>set segs'. is_name s) \<and> (False \<longrightarrow> k' = 0) \<and>
        clean_loop False path [] 0 = render False k' segs'"
proof (rule clean_loop_render [of "[]" False 0])
  show "\<forall>s\<in>set []. is_name s" by simp
  show "False \<longrightarrow> (0::nat) = 0" by simp
  show "[] = render False 0 []" by (simp add: render_def)
  show "0 = length (render False 0 [])" by (simp add: render_def)
qed

lemma Clean_rooted:
  "path \<noteq> [] \<Longrightarrow> hd path = CHR ''/'' \<Longrightarrow>
   Clean path = (if length (clean_loop True (tl path) ''/'' 1) = 0 then ''.''
                 else clean_loop True (tl path) ''/'' 1)"
  unfolding Clean_def Let_def by (simp only: if_True if_False simp_thms)

lemma Clean_relative:
  "path \<noteq> [] \<Longrightarrow> hd path \<noteq> CHR ''/'' \<Longrightarrow>
   Clean path = (if length (clean_loop False path [] 0) = 0 then ''.''
                 else clean_loop False path [] 0)"
  unfolding Clean_def Let_def by (simp only: if_True if_False simp_thms)

lemma Clean_form:
  "Clean path = ''.'' \<or>
   (\<exists>rooted k segs. (\<forall>s\<in>set segs. is_name s) \<and> (rooted \<longrightarrow> k = 0) \<and>
      Clean path = render rooted k segs)"
proof (cases "path = []")
  case True
  then show ?thesis by (simp add: Clean_def)
next
  case False
  show ?thesis
  proof (cases "hd path = CHR ''/''")
    case True
    from clean_loop_rooted_start [of path] obtain segs' where n: "\<forall>s\<in>set segs'. is_name s"
      and c: "clean_loop True (tl path) ''/'' 1 = render True 0 segs'"
      by auto
    have "render True 0 segs' \<noteq> []" by (simp add: render_def)
    then have "Clean path = render True 0 segs'"
      unfolding Clean_rooted [OF False True] c by simp
    with n have "(\<forall>s\<in>set segs'. is_name s) \<and> (True \<longrightarrow> (0::nat) = 0) \<and>
        Clean path = render True 0 segs'"
      by simp
    then show ?thesis by (intro disjI2 exI)
  next
    case nr: False
    from clean_loop_relative_start [of path] obtain k' segs' where n: "\<forall>s\<in>set segs'. is_name s"
      and c: "clean_loop False path [] 0 = render False k' segs'"
      by auto
    show ?thesis
    proof (cases "render False k' segs' = []")
      case True
      then have "Clean path = ''.''"
        unfolding Clean_relative [OF False nr] c by simp
      then show ?thesis by (rule disjI1)
    next
      case ne: False
      then have "Clean path = render False k' segs'"
        unfolding Clean_relative [OF False nr] c by simp
      with n have "(\<forall>s\<in>set segs'. is_name s) \<and> (False \<longrightarrow> k' = 0) \<and>
          Clean path = render False k' segs'"
        by simp
      then show ?thesis by (intro disjI2 exI)
    qed
  qed
qed

lemma Join_slash_no_leading_slash:
  assumes "\<forall>s\<in>set xs. s \<noteq> [] \<and> CHR ''/'' \<notin> set s"
  shows "\<not> HasPrefix (Join_slash xs) ''/''"
proof (cases xs)
  case Nil
  then show ?thesis by (simp add: HasPrefix_def)
next
  case (Cons x xs')
  with assms obtain c cs where x: "x = c # cs" and c: "c \<noteq> CHR ''/''"
    by (cases x) auto
  have "\<exists>t. Join_slash xs = c # t"
    unfolding Cons x by (cases xs') simp_all
  with c show ?thesis by (auto simp: HasPrefix_def)
qed

lemma is_nameD: "is_name s \<Longrightarrow> s \<noteq> [] \<and> CHR ''/'' \<notin> set s"
  by (simp add: is_name_def)

lemma in_replicate_append: "s \<in> set (replicate k x @ ys) \<Longrightarrow> s = x \<or> s \<in> set ys"
  by (auto split: if_splits)

lemma names_no_slash: "\<forall>s\<in>set segs. is_name s \<Longrightarrow> \<forall>s\<in>set (replicate k ''..'' @ segs). s \<noteq> [] \<and> CHR ''/'' \<notin> set s"
proof
  fix s assume a: "\<forall>s\<in>set segs. is_name s" and s: "s \<in> set (replicate k ''..'' @ segs)"
  from s have "s = ''..'' \<or> s \<in> set segs" by (rule in_replicate_append)
  then show "s \<noteq> [] \<and> CHR ''/'' \<notin> set s"
  proof
    assume "s = ''..''" then show ?thesis by simp
  next
    assume "s \<in> set segs" with a have "is_name s" by simp
    then show ?thesis by (rule is_nameD)
  qed
qed

lemma NormalizePath_form:
  "NormalizePath p = ''.'' \<or>
   (\<exists>k segs. (\<forall>s\<in>set segs. is_name s) \<and>
      NormalizePath p = Join_slash (replicate k ''..'' @ segs))"
proof -
  define path where "path = TrimPrefix p ''/''"
  have np: "NormalizePath p = TrimPrefix (Clean path) ''/''"
    by (simp add: NormalizePath_def path_def)
  from Clean_form [of path] show ?thesis
  proof
    assume "Clean path = ''.''"
    then have "NormalizePath p = ''.''"
      by (simp add: np TrimPrefix_def HasPrefix_def)
    then show ?thesis by (rule disjI1)
  next
    assume "\<exists>rooted k segs. (\<forall>s\<in>set segs. is_name s) \<and> (rooted \<longrightarrow> k = 0) \<and>
      Clean path = render rooted k segs"
    then obtain rooted k segs where n: "\<forall>s\<in>set segs. is_name s" and rk: "rooted \<longrightarrow> k = 0"
      and c: "Clean path = render rooted k segs"
      by (elim exE conjE)
    have "NormalizePath p = Join_slash (replicate k ''..'' @ segs)"
    proof (cases rooted)
      case True
      with rk have "Clean path = CHR ''/'' # Join_slash (replicate k ''..'' @ segs)"
        unfolding c by (simp add: render_def)
      then show ?thesis
        unfolding np by (simp add: TrimPrefix_def HasPrefix_def)
    next
      case False
      then have cj: "Clean path = Join_slash (replicate k ''..'' @ segs)"
        unfolding c by (simp add: render_def)
      have "\<not> HasPrefix (Join_slash (replicate k ''..'' @ segs)) ''/''"
        by (rule Join_slash_no_leading_slash [OF names_no_slash [OF n]])
      then show ?thesis
        unfolding np cj by (simp add: TrimPrefix_def)
    qed
    with n have "(\<forall>s\<in>set segs. is_name s) \<and>
        NormalizePath p = Join_slash (replicate k ''..'' @ segs)"
      by simp
    then show ?thesis by (intro disjI2 exI)
  qed
qed

lemma is_name_not_dot: "is_name s \<Longrightarrow> s \<noteq> ''.''"
  by (simp add: is_name_def)

lemma is_name_not_dotdot: "is_name s \<Longrightarrow> s \<noteq> ''..''"
  by (simp add: is_name_def)

lemma dropWhile_replicate_append: "\<forall>y\<in>set ys. y \<noteq> x \<Longrightarrow>
  x \<notin> set (dropWhile (\<lambda>s. s = x) (replicate k x @ ys))"
proof (induction k)
  case 0
  then show ?case by (auto dest: set_dropWhileD)
next
  case (Suc k)
  then show ?case by simp
qed

lemma Join_slash_segments:
  assumes n: "\<forall>s\<in>set segs. is_name s" and r: "r = Join_slash (replicate k ''..'' @ segs)"
  shows "''.'' \<notin> set (Split_slash r) \<and>
         ''..'' \<notin> set (dropWhile (\<lambda>s. s = ''..'') (Split_slash r))"
proof (cases "replicate k ''..'' @ segs = []")
  case True
  then have "Split_slash r = [[]]" unfolding r by simp
  then show ?thesis by simp
next
  case False
  have "\<forall>s\<in>set (replicate k ''..'' @ segs). CHR ''/'' \<notin> set s"
    using names_no_slash [OF n, of k] by simp
  from Split_Join_slash [OF False this]
  have sp: "Split_slash r = replicate k ''..'' @ segs" unfolding r .
  have d: "''.'' \<notin> set (replicate k ''..'' @ segs)"
  proof
    assume "''.'' \<in> set (replicate k ''..'' @ segs)"
    then have "''.'' = ''..'' \<or> ''.'' \<in> set segs" by (rule in_replicate_append)
    then have "''.'' \<in> set segs" by simp
    with n have "is_name ''.''" by simp
    then show False by (simp add: is_name_def)
  qed
  have "\<forall>y\<in>set segs. y \<noteq> ''..''"
  proof
    fix y assume "y \<in> set segs"
    with n have "is_name y" by simp
    then show "y \<noteq> ''..''" by (rule is_name_not_dotdot)
  qed
  then have "''..'' \<notin> set (dropWhile (\<lambda>s. s = ''..'') (replicate k ''..'' @ segs))"
    by (rule dropWhile_replicate_append)
  with d show ?thesis unfolding sp by simp
qed

text \<open>
  C5, as the code has it. For every input string \<open>p\<close>, \<open>NormalizePath p\<close> has no
  leading \<open>'/'\<close>; it has no \<open>"."\<close> segment unless it is \<open>"."\<close> itself, which stands
  for the empty result; and its \<open>".."\<close> segments, if any, all stand at its front, left
  there when the path climbs above its start.
\<close>

theorem NormalizePath_normal_form:
  "\<not> HasPrefix (NormalizePath p) ''/'' \<and>
   (NormalizePath p = ''.'' \<or> ''.'' \<notin> set (Split_slash (NormalizePath p))) \<and>
   ''..'' \<notin> set (dropWhile (\<lambda>s. s = ''..'') (Split_slash (NormalizePath p)))"
proof -
  from NormalizePath_form [of p] show ?thesis
  proof
    assume "NormalizePath p = ''.''"
    then show ?thesis by (simp add: HasPrefix_def)
  next
    assume "\<exists>k segs. (\<forall>s\<in>set segs. is_name s) \<and>
      NormalizePath p = Join_slash (replicate k ''..'' @ segs)"
    then obtain k segs where n: "\<forall>s\<in>set segs. is_name s"
      and r: "NormalizePath p = Join_slash (replicate k ''..'' @ segs)"
      by (elim exE conjE)
    have "\<not> HasPrefix (Join_slash (replicate k ''..'' @ segs)) ''/''"
      by (rule Join_slash_no_leading_slash [OF names_no_slash [OF n]])
    then have a: "\<not> HasPrefix (NormalizePath p) ''/''" unfolding r .
    from Join_slash_segments [OF n r] a show ?thesis by simp
  qed
qed

theorem NormalizePath_normal_form_witness:
  "NormalizePath ''/a/./../../b//c/'' = ''../b/c'' \<and>
   \<not> HasPrefix (NormalizePath ''/a/./../../b//c/'') ''/'' \<and>
   ''.'' \<notin> set (Split_slash (NormalizePath ''/a/./../../b//c/'')) \<and>
   ''..'' \<notin> set (dropWhile (\<lambda>s. s = ''..'') (Split_slash (NormalizePath ''/a/./../../b//c/'')))"
proof -
  have n: "NormalizePath ''/a/./../../b//c/'' = ''../b/c''"
    by code_simp
  from NormalizePath_normal_form [of "''/a/./../../b//c/''"] show ?thesis
    unfolding n by simp
qed

text \<open>
  The claim as stated fails: the empty path is normalized to \<open>"."\<close>, which is a
  \<open>"."\<close> segment, and \<open>"../a"\<close> is normalized to itself, which has a \<open>".."\<close>
  segment.
\<close>

theorem NormalizePath_segments_counterexample:
  "NormalizePath [] = ''.'' \<and> ''.'' \<in> set (Split_slash (NormalizePath [])) \<and>
   NormalizePath ''../a'' = ''../a'' \<and> ''..'' \<in> set (Split_slash (NormalizePath ''../a''))"
  by (simp add: NormalizePath_def Clean_def TrimPrefix_def HasPrefix_def)

lemma NormalizePath_no_dot_slash: "\<not> HasPrefix (NormalizePath n) ''./''"
proof
  assume h: "HasPrefix (NormalizePath n) ''./''"
  then obtain t where t: "NormalizePath n = ''.'' @ CHR ''/'' # t"
    by (auto simp: HasPrefix_def prefix_def)
  have "Split_slash (''.'' @ CHR ''/'' # t) = ''.'' # Split_slash t"
    by (rule Split_slash_append) simp
  then have sp: "''.'' \<in> set (Split_slash (NormalizePath n))"
    unfolding t by simp
  from NormalizePath_form [of n] show False
  proof
    assume "NormalizePath n = ''.''"
    with t show False by simp
  next
    assume "\<exists>k segs. (\<forall>s\<in>set segs. is_name s) \<and>
      NormalizePath n = Join_slash (replicate k ''..'' @ segs)"
    then obtain k segs where n: "\<forall>s\<in>set segs. is_name s"
      and r: "NormalizePath n = Join_slash (replicate k ''..'' @ segs)"
      by (elim exE conjE)
    from Join_slash_segments [OF n r] sp show False by simp
  qed
qed

section \<open>The path-traversal guard of the facade\<close>

text \<open>
  C3, as the code has it. \<open>Archive.ExtractFile\<close> rejects a path with the
  path-traversal error exactly when the path as given contains \<open>".."\<close>; it does so
  before the handler runs and with the state of the network unchanged, and passes every
  other path to the handler. Every path whose normalized form contains a \<open>".."\<close>
  segment is among the rejected ones.
\<close>

theorem Archive_ExtractFile_path_traversal:
  "Archive_ExtractFile format_ExtractFile w filePath password =
     (if Contains filePath ''..'' then (Inl ErrPathTraversal, w)
      else format_ExtractFile w filePath password) \<and>
   (''..'' \<in> set (Split_slash (NormalizePath filePath)) \<longrightarrow> Contains filePath ''..'')"
proof -
  have "Archive_ExtractFile format_ExtractFile w filePath password =
     (if Contains filePath ''..'' then (Inl ErrPathTraversal, w)
      else format_ExtractFile w filePath password)"
    by (simp add: Archive_ExtractFile_def IsValidPath_iff)
  moreover have "Contains filePath ''..''"
    if "''..'' \<in> set (Split_slash (NormalizePath filePath))"
  proof (rule ccontr)
    assume "\<not> Contains filePath ''..''"
    then have "\<not> Contains (NormalizePath filePath) ''..''"
      by (rule NormalizePath_no_dotdot)
    with Split_slash_sublist [OF that] show False
      by (simp add: Contains_def)
  qed
  ultimately show ?thesis by simp
qed

theorem Archive_ExtractFile_path_traversal_witness:
  "''..'' \<in> set (Split_slash (NormalizePath ''../../etc/passwd'')) \<and>
   Contains ''../../etc/passwd'' ''..'' \<and>
   Archive_ExtractFile ex_handler [] ''../../etc/passwd'' [] = (Inl ErrPathTraversal, [])"
proof -
  have s: "''..'' \<in> set (Split_slash (NormalizePath ''../../etc/passwd''))"
    by (simp add: NormalizePath_def Clean_def TrimPrefix_def HasPrefix_def)
  from Archive_ExtractFile_path_traversal [of ex_handler "[]" "''../../etc/passwd''" "[]"] s
  show ?thesis by simp
qed

text \<open>
  The claim as stated fails in one direction: \<open>"a/../b"\<close> is rejected with the
  path-traversal error although its normalized form, \<open>"b"\<close>, contains no \<open>".."\<close>
  (\<open>TestIsValidPath\<close> expects such paths to be invalid).
\<close>

theorem Archive_ExtractFile_counterexample:
  "Archive_ExtractFile ex_handler [] ''a/../b'' [] = (Inl ErrPathTraversal, []) \<and>
   NormalizePath ''a/../b'' = ''b'' \<and>
   ''..'' \<notin> set (Split_slash (NormalizePath ''a/../b''))"
proof -
  have n: "NormalizePath ''a/../b'' = ''b''"
    by code_simp
  have c: "Contains ''a/../b'' ''..''"
    by (simp add: Contains_def sublist_Cons_right)
  from c show ?thesis
    unfolding n by (simp add: Archive_ExtractFile_def IsValidPath_def)
qed

section \<open>Encryption and the result of GetInfo\<close>

lemma add_entry_flags [simp]:
  "IsEncrypted (add_entry info e) = IsEncrypted info"
  "RequiresPassword (add_entry info e) = RequiresPassword info"
  by (simp_all add: add_entry_def Let_def)

lemma tar_info_loop_flags:
  "tar_info_loop hs err info = (Some info', e) \<Longrightarrow>
   IsEncrypted info' = IsEncrypted info \<and> RequiresPassword info' = RequiresPassword info"
  by (induction hs arbitrary: info) (auto split: if_splits)

lemma rar_info_loop_flags:
  "rar_info_loop password hs err info = (Some info', e) \<Longrightarrow>
   (RequiresPassword info \<longrightarrow> IsEncrypted info) \<Longrightarrow>
   (RequiresPassword info' \<longrightarrow> IsEncrypted info')"
  by (induction hs arbitrary: info) (auto simp: Let_def split: if_splits)

lemma sz_info_loop_flags:
  "(RequiresPassword info \<longrightarrow> IsEncrypted info) \<Longrightarrow>
   (RequiresPassword (sz_info_loop password fs info)
      \<longrightarrow> IsEncrypted (sz_info_loop password fs info))"
  by (induction fs arbitrary: info) (auto simp: Let_def)

lemma zip_info_loop_flags:
  "zip_info_loop env password fs info verified = (Some info', e) \<Longrightarrow>
   (RequiresPassword info \<longrightarrow> IsEncrypted info) \<Longrightarrow>
   (RequiresPassword info' \<longrightarrow> IsEncrypted info')"
proof (induction fs arbitrary: info verified)
  case Nil
  then show ?case by (auto split: if_splits)
next
  case (Cons f fs)
  show ?case
  proof (cases "zf_IsEncrypted f")
    case False
    with Cons.prems Cons.IH [of "add_entry info (zip_entry env f)" verified]
    show ?thesis by simp
  next
    case enc: True
    show ?thesis
    proof (cases "\<not> verified \<and> password \<noteq> []")
      case True
      show ?thesis
      proof (cases "zf_Open f password")
        case None
        with Cons.prems enc True
          Cons.IH [of "add_entry (info\<lparr>IsEncrypted := True\<rparr>) (zip_entry env f)" True]
        show ?thesis by (simp add: Let_def)
      next
        case (Some err)
        with Cons.prems enc True show ?thesis
          by (auto simp: Let_def split: if_splits)
      qed
    next
      case False
      show ?thesis
      proof (cases "password = []")
        case True
        with Cons.prems enc False
          Cons.IH [of "add_entry (info\<lparr>IsEncrypted := True, RequiresPassword := True\<rparr>)
                         (zip_entry env f)" verified]
        show ?thesis by (simp add: Let_def)
      next
        case np: False
        with Cons.prems enc False
          Cons.IH [of "add_entry (info\<lparr>IsEncrypted := True\<rparr>) (zip_entry env f)" verified]
        show ?thesis by (simp add: Let_def)
      qed
    qed
  qed
qed

text \<open>
  C9. For every archive, every handler and every password, the \<open>ArchiveInfo\<close> that
  \<open>GetInfo\<close> returns, also the one returned alongside an error, satisfies:
  \<open>RequiresPassword\<close> implies \<open>IsEncrypted\<close>.
\<close>

theorem GetInfo_requires_password_implies_encrypted:
  "GetInfo env a password = (Some info, e) \<Longrightarrow> RequiresPassword info \<Longrightarrow> IsEncrypted info"
proof (cases a)
  case (ZipArchive z)
  assume g: "GetInfo env a password = (Some info, e)" and r: "RequiresPassword info"
  from g ZipArchive obtain zr :: zip_Reader where
    "zip_info_loop env password (zr_File zr) (new_info (zr_Comment zr)) False = (Some info, e)"
    by (auto simp: Zip_GetInfo_def split: sum.splits)
  from zip_info_loop_flags [OF this] r show ?thesis by (simp add: new_info_def)
next
  case (RarArchive ra)
  assume g: "GetInfo env a password = (Some info, e)" and r: "RequiresPassword info"
  from g RarArchive obtain hs err where
    "rar_info_loop password hs err (new_info []) = (Some info, e)"
    by (auto simp: Rar_GetInfo_def split: sum.splits prod.splits)
  from rar_info_loop_flags [OF this] r show ?thesis by (simp add: new_info_def)
next
  case (SevenZipArchive sa)
  assume g: "GetInfo env a password = (Some info, e)" and r: "RequiresPassword info"
  have "RequiresPassword (new_info []) \<longrightarrow> IsEncrypted (new_info [])"
    by (simp add: new_info_def)
  from sz_info_loop_flags [OF this] g r SevenZipArchive show ?thesis
    by (auto simp: SevenZip_GetInfo_def Let_def split: sum.splits if_splits)
next
  case (TarArchive ta)
  assume g: "GetInfo env a password = (Some info, e)" and r: "RequiresPassword info"
  from g TarArchive have "tar_info_loop (ta_headers ta) (ta_err ta) (new_info []) = (Some info, e)"
    by (auto simp: Tar_GetInfo_def split: if_splits sum.splits option.splits)
  from tar_info_loop_flags [OF this] r show ?thesis by (simp add: new_info_def)
qed

theorem GetInfo_requires_password_implies_encrypted_witness:
  "GetInfo ex_env (ZipArchive ex_zip) [] = (Some ex_zip_info, Some ErrPasswordRequired) \<and>
   RequiresPassword ex_zip_info \<and> IsEncrypted ex_zip_info"
proof -
  have g: "GetInfo ex_env (ZipArchive ex_zip) [] = (Some ex_zip_info, Some ErrPasswordRequired)"
    by (simp add: Zip_GetInfo_def ex_zip_def ex_zip_info_def new_info_def add_entry_def
          zip_entry_def decodeName_def ex_env_def HasSuffix_def suffix_to_prefix wrap64_def
          Let_def)
  have r: "RequiresPassword ex_zip_info"
    by (simp add: ex_zip_info_def)
  from GetInfo_requires_password_implies_encrypted [OF g r] g r show ?thesis
    by simp
qed

lemma zip_info_loop_no_password:
  "IsEncrypted info \<and> RequiresPassword info \<or> list_ex zf_IsEncrypted fs \<Longrightarrow>
   \<exists>info'. zip_info_loop env [] fs info verified = (Some info', Some ErrPasswordRequired) \<and>
           IsEncrypted info' \<and> RequiresPassword info'"
proof (induction fs arbitrary: info)
  case Nil
  then show ?case by simp
next
  case (Cons f fs)
  show ?case
  proof (cases "zf_IsEncrypted f")
    case True
    have "IsEncrypted (add_entry (info\<lparr>IsEncrypted := True, RequiresPassword := True\<rparr>)
             (zip_entry env f)) \<and>
          RequiresPassword (add_entry (info\<lparr>IsEncrypted := True, RequiresPassword := True\<rparr>)
             (zip_entry env f))"
      by simp
    then have "\<exists>info'. zip_info_loop env [] fs
                   (add_entry (info\<lparr>IsEncrypted := True, RequiresPassword := True\<rparr>)
                      (zip_entry env f)) verified
                 = (Some info', Some ErrPasswordRequired) \<and>
               IsEncrypted info' \<and> RequiresPassword info'"
      by (intro Cons.IH) simp
    with True show ?thesis by (simp add: Let_def)
  next
    case False
    with Cons.prems
    have "IsEncrypted (add_entry info (zip_entry env f)) \<and>
          RequiresPassword (add_entry info (zip_entry env f)) \<or> list_ex zf_IsEncrypted fs"
      by simp
    from Cons.IH [OF this] False show ?thesis by simp
  qed
qed

lemma rar_info_loop_no_password:
  "err \<noteq> EOF \<Longrightarrow> is_password_text err \<Longrightarrow>
   \<exists>info'. rar_info_loop [] hs err info = (Some info', Some ErrPasswordRequired) \<and>
           IsEncrypted info' \<and> RequiresPassword info'"
  by (induction hs arbitrary: info) (simp_all add: Let_def)

lemma sz_info_loop_no_password:
  "IsEncrypted info \<and> RequiresPassword info \<or>
   list_ex open_encrypted fs \<Longrightarrow>
   IsEncrypted (sz_info_loop [] fs info) \<and> RequiresPassword (sz_info_loop [] fs info)"
proof (induction fs arbitrary: info)
  case Nil
  then show ?case by simp
next
  case (Cons f fs)
  show ?case
  proof (cases "open_encrypted f")
    case True
    then show ?thesis by (simp add: Let_def)
  next
    case False
    with Cons.prems
    have "IsEncrypted (add_entry info (sz_entry f)) \<and>
          RequiresPassword (add_entry info (sz_entry f)) \<or>
          list_ex open_encrypted fs"
      by simp
    from Cons.IH [OF this] False show ?thesis by (simp add: Let_def)
  qed
qed

text \<open>
  C6. For every handler, whenever \<open>GetInfo\<close> meets encryption and the supplied
  password is empty, it returns an \<open>ArchiveInfo\<close> with \<open>IsEncrypted\<close> and
  \<open>RequiresPassword\<close> set together with the error \<open>ErrPasswordRequired\<close>: both
  components of the result are present.
\<close>

theorem GetInfo_dual_signal:
  "encryption_seen a \<Longrightarrow>
   \<exists>info. GetInfo env a [] = (Some info, Some ErrPasswordRequired) \<and>
          IsEncrypted info \<and> RequiresPassword info"
proof (cases a)
  case (ZipArchive z)
  assume "encryption_seen a"
  with ZipArchive obtain zr :: zip_Reader
    where z: "z = Inr zr" and enc: "list_ex zf_IsEncrypted (zr_File zr)"
    by (auto split: sum.splits)
  from enc have "IsEncrypted (new_info (zr_Comment zr)) \<and>
      RequiresPassword (new_info (zr_Comment zr)) \<or> list_ex zf_IsEncrypted (zr_File zr)"
    by simp
  from zip_info_loop_no_password [OF this, of env False] ZipArchive z
  show ?thesis by (simp add: Zip_GetInfo_def)
next
  case (RarArchive ra)
  assume "encryption_seen a"
  with RarArchive obtain hs err
    where o: "ra_NewReader ra [] = Inr (hs, err)" and e: "err \<noteq> EOF" "is_password_text err"
    by (auto split: sum.splits prod.splits)
  from rar_info_loop_no_password [OF e, of hs "new_info []"] RarArchive o
  show ?thesis by (simp add: Rar_GetInfo_def)
next
  case (SevenZipArchive sa)
  assume s: "encryption_seen a"
  show ?thesis
  proof (cases "sa_NewReader sa []")
    case (Inl err)
    with s SevenZipArchive show ?thesis
      by (simp add: SevenZip_GetInfo_def)
  next
    case (Inr files)
    with s SevenZipArchive
    have "IsEncrypted (new_info []) \<and> RequiresPassword (new_info []) \<or>
          list_ex open_encrypted files"
      by simp
    from sz_info_loop_no_password [OF this] Inr SevenZipArchive
    show ?thesis by (simp add: SevenZip_GetInfo_def Let_def)
  qed
next
  case (TarArchive ta)
  assume "encryption_seen a"
  with TarArchive show ?thesis by simp
qed

theorem GetInfo_dual_signal_witness:
  "encryption_seen (ZipArchive ex_zip) \<and>
   (\<exists>info. GetInfo ex_env (ZipArchive ex_zip) [] = (Some info, Some ErrPasswordRequired) \<and>
           IsEncrypted info \<and> RequiresPassword info)"
proof -
  have s: "encryption_seen (ZipArchive ex_zip)"
    by (simp add: ex_zip_def)
  from GetInfo_dual_signal [OF s] s show ?thesis
    by simp
qed

text \<open>
  Conversely, an \<open>ArchiveInfo\<close> returned for the empty password says \<open>IsEncrypted\<close>
  only if encryption was met.
\<close>

lemma zip_info_loop_seen:
  "zip_info_loop env [] fs info verified = (Some info', e) \<Longrightarrow>
   \<not> IsEncrypted info \<Longrightarrow> \<not> list_ex zf_IsEncrypted fs \<Longrightarrow> \<not> IsEncrypted info'"
proof (induction fs arbitrary: info)
  case Nil
  then show ?case by (auto split: if_splits)
next
  case (Cons f fs)
  from Cons.prems have l: "zip_info_loop env [] fs (add_entry info (zip_entry env f)) verified
      = (Some info', e)"
    by simp
  from Cons.prems have "\<not> IsEncrypted (add_entry info (zip_entry env f))"
    and "\<not> list_ex zf_IsEncrypted fs"
    by simp_all
  with Cons.IH [OF l] show ?case by simp
qed

lemma rar_info_loop_seen:
  "rar_info_loop [] hs err info = (Some info', e) \<Longrightarrow>
   \<not> IsEncrypted info \<Longrightarrow> \<not> (err \<noteq> EOF \<and> is_password_text err) \<Longrightarrow> \<not> IsEncrypted info'"
proof (induction hs arbitrary: info)
  case Nil
  then show ?case by (auto simp: Let_def split: if_splits)
next
  case (Cons h hs)
  from Cons.prems have l: "rar_info_loop [] hs err (add_entry info (rar_entry h)) = (Some info', e)"
    by simp
  from Cons.prems have "\<not> IsEncrypted (add_entry info (rar_entry h))"
    by simp
  from Cons.IH [OF l this] Cons.prems show ?case by simp
qed

lemma sz_info_loop_seen:
  "\<not> IsEncrypted info \<Longrightarrow> \<not> list_ex open_encrypted fs \<Longrightarrow>
   \<not> IsEncrypted (sz_info_loop [] fs info)"
proof (induction fs arbitrary: info)
  case Nil
  then show ?case by simp
next
  case (Cons f fs)
  from Cons.prems have "\<not> IsEncrypted (add_entry info (sz_entry f))"
    and "\<not> list_ex open_encrypted fs" and "\<not> open_encrypted f"
    by simp_all
  with Cons.IH [of "add_entry info (sz_entry f)"] show ?case by (simp add: Let_def)
qed

lemma GetInfo_encrypted_seen:
  "GetInfo env a [] = (Some info, e) \<Longrightarrow> IsEncrypted info \<Longrightarrow> encryption_seen a"
proof (cases a)
  case (ZipArchive z)
  assume g: "GetInfo env a [] = (Some info, e)" and i: "IsEncrypted info"
  from g ZipArchive obtain zr :: zip_Reader where z: "z = Inr zr" and
    l: "zip_info_loop env [] (zr_File zr) (new_info (zr_Comment zr)) False = (Some info, e)"
    by (auto simp: Zip_GetInfo_def split: sum.splits)
  from zip_info_loop_seen [OF l] i ZipArchive z show ?thesis by (auto simp: new_info_def)
next
  case (RarArchive ra)
  assume g: "GetInfo env a [] = (Some info, e)" and i: "IsEncrypted info"
  from g RarArchive obtain hs err where o: "ra_NewReader ra [] = Inr (hs, err)" and
    l: "rar_info_loop [] hs err (new_info []) = (Some info, e)"
    by (auto simp: Rar_GetInfo_def split: sum.splits prod.splits)
  from rar_info_loop_seen [OF l] i RarArchive o show ?thesis by (auto simp: new_info_def)
next
  case (SevenZipArchive sa)
  assume g: "GetInfo env a [] = (Some info, e)" and i: "IsEncrypted info"
  show ?thesis
  proof (cases "sa_NewReader sa []")
    case (Inl err)
    with g SevenZipArchive show ?thesis
      by (auto simp: SevenZip_GetInfo_def split: if_splits)
  next
    case (Inr files)
    with g i SevenZipArchive have "IsEncrypted (sz_info_loop [] files (new_info []))"
      by (auto simp: SevenZip_GetInfo_def Let_def split: if_splits)
    with sz_info_loop_seen [of "new_info []" files] Inr SevenZipArchive show ?thesis
      by (auto simp: new_info_def)
  qed
next
  case (TarArchive ta)
  assume g: "GetInfo env a [] = (Some info, e)" and i: "IsEncrypted info"
  from g TarArchive have "tar_info_loop (ta_headers ta) (ta_err ta) (new_info []) = (Some info, e)"
    by (auto simp: Tar_GetInfo_def split: if_splits sum.splits option.splits)
  from tar_info_loop_flags [OF this] i show ?thesis by (simp add: new_info_def)
qed

section \<open>Listing with the inner paths "" and "/"\<close>

text \<open>
  \<open>NormalizePath\<close> maps both the empty string and \<open>"/"\<close> to \<open>"."\<close>, as
  \<open>TestNormalizePath\<close> expects. The 7z, RAR and TAR handlers normalize \<open>innerPath\<close>
  before they look at it, so for both inputs they filter on the prefix \<open>"./"\<close>.
\<close>

lemma NormalizePath_empty: "NormalizePath [] = ''.''"
  by (simp add: NormalizePath_def TrimPrefix_def HasPrefix_def Clean_def)

lemma NormalizePath_root: "NormalizePath ''/'' = ''.''"
  by (simp add: NormalizePath_def TrimPrefix_def HasPrefix_def Clean_def)

lemma inner_path_prefix_empty_root:
  "inner_path_prefix [] = ''./''" "inner_path_prefix ''/'' = ''./''"
  by (simp_all add: inner_path_prefix_def NormalizePath_empty NormalizePath_root)

text \<open>
  C1, at a failing input. For the TAR archive \<open>ex_tar\<close> with the entries \<open>a.txt\<close>
  and \<open>d/b.txt\<close>, \<open>GetInfo\<close> reports both entries, and \<open>ListFiles\<close> with the empty
  inner path returns no entry.
\<close>

theorem Tar_ListFiles_empty_inner_path:
  "ListFiles ex_env (TarArchive ex_tar) [] [] = Inr [] \<and>
   map_option Files (fst (GetInfo ex_env (TarArchive ex_tar) [])) = Some ex_tar_entries \<and>
   snd (GetInfo ex_env (TarArchive ex_tar) []) = None"
  by (simp add: Tar_ListFiles_def Tar_GetInfo_def ex_tar_def ex_tar_entries_def
        detectCompression_def magic_buffer_def wrapReader_def inner_path_prefix_empty_root
        filter_by_inner_path_def NormalizePath_def Clean_def TrimPrefix_def HasPrefix_def
        new_info_def add_entry_def tar_entry_def TypeDir_def Let_def)

text \<open>
  C2, at a failing input. For the 7z archive \<open>ex_7z\<close> with the entries \<open>a.txt\<close> and
  \<open>d/b.txt\<close>, \<open>ListFiles\<close> with the inner path \<open>"/"\<close> returns no entry, although
  the normalized name of \<open>a.txt\<close> contains no \<open>'/'\<close>.
\<close>

theorem SevenZip_ListFiles_root_inner_path:
  "ListFiles ex_env (SevenZipArchive ex_7z) ''/'' [] = Inr [] \<and>
   \<not> Contains (TrimSuffix (NormalizePath ''a.txt'') ''/'') ''/''"
  by (simp add: SevenZip_ListFiles_def ex_7z_def inner_path_prefix_empty_root
        filter_by_inner_path_def NormalizePath_def Clean_def TrimPrefix_def HasPrefix_def
        TrimSuffix_def HasSuffix_def suffix_to_prefix Contains_def sublist_code Let_def)

section \<open>The range transport and the random-access adapter\<close>

text \<open>
  C10. A range fetch requested with length exactly 0 returns the empty reader at once,
  for every URL and every offset: the log of requests is unchanged and the result does
  not depend on the network. The reader yields no byte and then end-of-input.
\<close>

theorem RangeRequest_zero_length:
  "RangeRequest net c log url start 0 = (Inr EmptyReader, log) \<and>
   ReadAll k EmptyReader = ([], None)"
  by (simp add: RangeRequest_def ReadAll_def ReadAll_loop.simps)

text \<open>
  C4, as the code has it. \<open>ReadAt\<close> at an offset \<open>off\<close> at or beyond the size returns
  no byte and sends no request; the error is end-of-input when the reader is open and
  the offset is not negative. The two guards that come first in \<open>ReadAt\<close> answer
  otherwise: a closed reader returns the error "reader is closed", and a negative
  offset (at or beyond a negative size) returns "negative offset".
\<close>

theorem ReadAt_beyond_size:
  "rr_size r \<le> off \<Longrightarrow>
   ReadAt net c r log plen off =
     (([], Some (if rr_closed r then NewError ''reader is closed''
                 else if off < 0 then NewError ''negative offset''
                 else EOF)), log)"
  by (simp add: ReadAt_def)

theorem ReadAt_beyond_size_witness:
  "rr_size ex_reader \<le> 10 \<and> \<not> rr_closed ex_reader \<and>
   ReadAt ex_net ex_client ex_reader [] 4 10 = (([], Some EOF), [])"
  using ReadAt_beyond_size [of ex_reader 10 ex_net ex_client "[]" 4]
  by (simp add: ex_reader_def)

text \<open>
  The claim as stated fails on a closed reader: at the offset 10, the size of the file,
  the error is not end-of-input.
\<close>

theorem ReadAt_closed_counterexample:
  "rr_size ex_closed_reader \<le> 10 \<and>
   ReadAt ex_net ex_client ex_closed_reader [] 4 10
     = (([], Some (NewError ''reader is closed'')), []) \<and>
   NewError ''reader is closed'' \<noteq> EOF"
  by (simp add: ReadAt_def ex_closed_reader_def)

section \<open>The TAR handler and passwords\<close>

text \<open>
  C8, as the code has it. For the TAR handler and every non-empty password, each of
  \<open>GetInfo\<close>, \<open>ListFiles\<close> and \<open>ExtractFile\<close> fails, before it reads anything, with
  a \<open>FormatError\<close> whose message is "TAR format does not support encryption".
\<close>

theorem Tar_password_unsupported:
  "password \<noteq> [] \<Longrightarrow>
   Tar_GetInfo a password
     = (None, Some (FormatError ''TAR format does not support encryption'')) \<and>
   Tar_ListFiles a innerPath password
     = Inl (FormatError ''TAR format does not support encryption'') \<and>
   Tar_ExtractFile a filePath password
     = Inl (FormatError ''TAR format does not support encryption'')"
  by (simp add: Tar_GetInfo_def Tar_ListFiles_def Tar_ExtractFile_def)

theorem Tar_password_unsupported_witness:
  "''secret'' \<noteq> [] \<and>
   Tar_GetInfo ex_tar ''secret''
     = (None, Some (FormatError ''TAR format does not support encryption'')) \<and>
   Tar_ListFiles ex_tar ''d'' ''secret''
     = Inl (FormatError ''TAR format does not support encryption'') \<and>
   Tar_ExtractFile ex_tar ''a.txt'' ''secret''
     = Inl (FormatError ''TAR format does not support encryption'')"
  using Tar_password_unsupported [of "''secret''" ex_tar "''d''" "''a.txt''"]
  by simp

text \<open>
  The message that the claim quotes, "TAR does not support encryption", is not the
  message of the error returned.
\<close>

theorem Tar_password_message_counterexample:
  "snd (Tar_GetInfo ex_tar ''secret'')
     \<noteq> Some (FormatError ''TAR does not support encryption'') \<and>
   Tar_ListFiles ex_tar [] ''secret''
     \<noteq> Inl (FormatError ''TAR does not support encryption'') \<and>
   Tar_ExtractFile ex_tar ''a.txt'' ''secret''
     \<noteq> Inl (FormatError ''TAR does not support encryption'')"
  by (simp add: Tar_GetInfo_def Tar_ListFiles_def Tar_ExtractFile_def)

end
